theory Spec2Isabelle
  imports Main "HOL-Library.Word"
begin

section \<open>Pages and buckets of the associative page cache\<close>

text \<open>
  The embedding follows \<^verbatim>\<open>src/associative_cache.cpp\<close> and
  \<^verbatim>\<open>src/libcache/global_cached_private.cpp\<close>. The class declarations
  (\<^verbatim>\<open>associative_cache.h\<close>, \<^verbatim>\<open>cache.h\<close>, \<^verbatim>\<open>io_request.h\<close>) are not part of
  the sources; what the functions need from them is either taken as a parameter or
  modelled from the specification, and marked so.
\<close>

subsection \<open>Constants of the missing headers\<close>

text \<open>Modelled from the spec: the macro \<^verbatim>\<open>PAGE_SIZE\<close> of the missing header
  \<^verbatim>\<open>cache.h\<close>; the spec gives the page size as 4096 bytes.\<close>

definition PAGE_SIZE :: int where
  "PAGE_SIZE = 4096"

text \<open>Modelled from the spec: the macro \<^verbatim>\<open>CELL_SIZE\<close> of the missing header; the
  spec gives the bucket width as \<^verbatim>\<open>CELL_SIZE = 16\<close>.\<close>

definition CELL_SIZE :: nat where
  "CELL_SIZE = 16"

subsection \<open>The page\<close>

text \<open>
  A \<^verbatim>\<open>thread_safe_page\<close>: its offset, its frame's bytes, the flag bits the sources
  test and set, the hit counter and the reference count. \<^verbatim>\<open>dec_ref\<close> is a plain
  decrement, so the reference count is a signed integer here. The constant
  \<^verbatim>\<open>PAGE_INVALID_OFFSET\<close> is declared in the missing header and is a parameter
  \<open>invalid_off\<close> of every function that compares with it.
\<close>

record page =
  offset :: int
  data :: "8 word list"
  data_ready :: bool
  dirty :: bool
  old_dirty :: bool
  io_pending :: bool
  hits :: nat
  refcnt :: int

text \<open>Modelled from the spec: \<^verbatim>\<open>page::initialized()\<close> of the missing header; a page
  is initialised when its offset is not the sentinel "invalid".\<close>

definition initialized :: "int \<Rightarrow> page \<Rightarrow> bool" where
  "initialized invalid_off pg = (offset pg \<noteq> invalid_off)"

definition inc_ref :: "page \<Rightarrow> page" where
  "inc_ref pg = pg\<lparr>refcnt := refcnt pg + 1\<rparr>"

definition dec_ref :: "page \<Rightarrow> page" where
  "dec_ref pg = pg\<lparr>refcnt := refcnt pg - 1\<rparr>"

text \<open>Modelled from the spec: \<^verbatim>\<open>page::hit()\<close> of the missing header; \<open>hits\<close> is a
  saturating 8-bit counter.\<close>

definition hit :: "page \<Rightarrow> page" where
  "hit pg = pg\<lparr>hits := (if hits pg < 255 then hits pg + 1 else hits pg)\<rparr>"

text \<open>Modelled from the spec: \<^verbatim>\<open>page::reset_hits()\<close> of the missing header; the
  spec sets GCLOCK, which "decrements \<open>hits\<close> by 1", against CLOCK's "resetting".\<close>

definition reset_hits :: "page \<Rightarrow> page" where
  "reset_hits pg = pg\<lparr>hits := 0\<rparr>"

subsection \<open>The bucket (\<^verbatim>\<open>hash_cell\<close>)\<close>

text \<open>
  \<^verbatim>\<open>page_cell\<close> is an array of \<^verbatim>\<open>CELL_SIZE\<close> pages: a function from the slot
  index, of which only the indices below \<^verbatim>\<open>CELL_SIZE\<close> are used. \<open>clock_head\<close> is the
  state of the CLOCK policy, \<open>overflow\<close> and \<open>in_queue\<close> the two bucket flags.
\<close>

record hash_cell =
  hash :: int
  buf :: "nat \<Rightarrow> page"
  clock_head :: nat
  overflow :: bool
  in_queue :: bool

definition set_page :: "nat \<Rightarrow> page \<Rightarrow> hash_cell \<Rightarrow> hash_cell" where
  "set_page i pg c = c\<lparr>buf := (buf c)(i := pg)\<rparr>"

text \<open>Modelled from the spec: \<^verbatim>\<open>page_cell::scale_down_hits\<close> of the missing header;
  "if it saturates, the bucket halves everyone's hits".\<close>

definition scale_down_hits :: "hash_cell \<Rightarrow> hash_cell" where
  "scale_down_hits c =
     c\<lparr>buf := (\<lambda>i. if i < CELL_SIZE then (buf c i)\<lparr>hits := hits (buf c i) div 2\<rparr> else buf c i)\<rparr>"

text \<open>The scan \<^verbatim>\<open>for (i = 0; i < CELL_SIZE; i++) if (get_offset() == off) break\<close>:
  the first slot that holds the offset.\<close>

definition find_offset :: "hash_cell \<Rightarrow> int \<Rightarrow> nat option" where
  "find_offset c off = find (\<lambda>i. offset (buf c i) = off) [0..<CELL_SIZE]"

subsection \<open>The CLOCK eviction policy\<close>

text \<open>
  One call of \<^verbatim>\<open>clock_eviction_policy::evict_page\<close>. \<open>clock_turn\<close> is the body of
  the \<^verbatim>\<open>do ... while\<close> loop, with the three locals \<^verbatim>\<open>avoid_dirty\<close>,
  \<^verbatim>\<open>num_dirty\<close> and \<^verbatim>\<open>num_referenced\<close> as arguments: it either leaves the loop
  (\<open>Stop\<close>: \<open>None\<close> is the \<^verbatim>\<open>return NULL\<close>, which leaves the hand where it is,
  \<open>Some i\<close> the \<^verbatim>\<open>break\<close> with slot \<open>i\<close> chosen) or goes round again
  (\<open>Continue\<close>). \<open>clock_loop\<close> is the loop.
\<close>

datatype clock_step =
  Continue bool nat nat hash_cell
  | Stop "nat option" hash_cell

definition clock_turn :: "bool \<Rightarrow> nat \<Rightarrow> nat \<Rightarrow> hash_cell \<Rightarrow> clock_step" where
  "clock_turn avoid_dirty num_dirty num_referenced c =
     (let i = clock_head c mod CELL_SIZE;
          pg = buf c i;
          restart = (num_dirty + num_referenced \<ge> CELL_SIZE);
          nd = (if restart then 0 else num_dirty);
          nr = (if restart then 0 else num_referenced);
          avoid = (if restart then False else avoid_dirty)
      in if refcnt pg \<noteq> 0 then
           (if nr + 1 \<ge> CELL_SIZE then Stop None c
            else Continue avoid nd (nr + 1) (c\<lparr>clock_head := clock_head c + 1\<rparr>))
         else if avoid \<and> dirty pg then
           Continue avoid (nd + 1) nr (c\<lparr>clock_head := clock_head c + 1\<rparr>)
         else if hits pg = 0 then Stop (Some i) c
         else Continue avoid nd nr
                (c\<lparr>buf := (buf c)(i := reset_hits pg), clock_head := clock_head c + 1\<rparr>))"

text \<open>
  The loop ends: every turn either counts a skipped page, or clears the hits of a page
  that had some, and \<open>num_referenced\<close> reaching \<^verbatim>\<open>CELL_SIZE\<close> returns.
\<close>

definition hot :: "hash_cell \<Rightarrow> nat" where
  "hot c = (\<Sum>i<CELL_SIZE. if hits (buf c i) = 0 then 0 else 1)"

definition clock_measure :: "bool \<Rightarrow> nat \<Rightarrow> nat \<Rightarrow> hash_cell \<Rightarrow> nat" where
  "clock_measure a d r c =
     (if CELL_SIZE \<le> d + r then CELL_SIZE + hot c
      else (if a then 3 * CELL_SIZE + 2 else if d > 0 then 2 * CELL_SIZE + 1 else 0)
           + (CELL_SIZE - (d + r)) + hot c)"

lemma CELL_SIZE_pos: "0 < CELL_SIZE"
  by (simp add: CELL_SIZE_def)

lemma hot_clock_head [simp]: "hot (c\<lparr>clock_head := h\<rparr>) = hot c"
  by (simp add: hot_def)

lemma hot_reset:
  assumes "i < CELL_SIZE" "hits (buf c i) \<noteq> 0"
  shows "hot (c\<lparr>buf := (buf c)(i := reset_hits (buf c i)), clock_head := h\<rparr>) < hot c"
proof -
  let ?f = "\<lambda>j. if hits (((buf c)(i := reset_hits (buf c i))) j) = 0 then 0 else (1::nat)"
  let ?g = "\<lambda>j. if hits (buf c j) = 0 then 0 else (1::nat)"
  have "sum ?f {..<CELL_SIZE} < sum ?g {..<CELL_SIZE}"
  proof (rule sum_strict_mono_ex1)
    show "finite {..<CELL_SIZE}" by simp
    show "\<forall>x\<in>{..<CELL_SIZE}. ?f x \<le> ?g x" by (simp add: reset_hits_def)
    show "\<exists>a\<in>{..<CELL_SIZE}. ?f a < ?g a"
      using assms by (intro bexI [of _ i]) (simp_all add: reset_hits_def)
  qed
  then show ?thesis by (simp add: hot_def)
qed

lemma clock_turn_measure:
  assumes "clock_turn a d r c = Continue a' d' r' c'"
  shows "clock_measure a' d' r' c' < clock_measure a d r c"
proof -
  have i: "clock_head c mod CELL_SIZE < CELL_SIZE"
    using CELL_SIZE_pos by simp
  show ?thesis
    using assms i hot_reset [of "clock_head c mod CELL_SIZE" c "clock_head c + 1"]
    by (auto simp: clock_turn_def clock_measure_def Let_def split: if_splits)
qed

function clock_loop :: "bool \<Rightarrow> nat \<Rightarrow> nat \<Rightarrow> hash_cell \<Rightarrow> nat option \<times> hash_cell" where
  "clock_loop avoid_dirty num_dirty num_referenced c =
     (case clock_turn avoid_dirty num_dirty num_referenced c of
        Stop ret c' \<Rightarrow> (ret, c')
      | Continue avoid nd nr c' \<Rightarrow> clock_loop avoid nd nr c')"
  by pat_completeness auto

termination clock_loop
  by (relation "measure (\<lambda>(a, d, r, c). clock_measure a d r c)")
     (simp_all add: clock_turn_measure)

declare clock_loop.simps [simp del]

text \<open>After the loop: \<^verbatim>\<open>ret->set_data_ready(false); ret->reset_hits(); return ret\<close>.\<close>

definition evict_page :: "hash_cell \<Rightarrow> nat option \<times> hash_cell" where
  "evict_page c =
     (case clock_loop True 0 0 c of
        (None, c') \<Rightarrow> (None, c')
      | (Some i, c') \<Rightarrow> (Some i, set_page i (reset_hits ((buf c' i)\<lparr>data_ready := False\<rparr>)) c'))"

text \<open>Modelled from the spec: \<^verbatim>\<open>clock_eviction_policy::expand_buffer\<close> of the
  missing header; the policy's expansion signal "returns true when \<open>victim.hits > 0\<close>".\<close>

definition expand_buffer :: "page \<Rightarrow> bool" where
  "expand_buffer pg = (hits pg > 0)"

subsection \<open>Admission into a bucket\<close>

text \<open>
  What \<^verbatim>\<open>hash_cell::get_empty_page\<close> reads from the table and its memory manager:
  \<^verbatim>\<open>table->is_expandable()\<close>, \<^verbatim>\<open>table->size()\<close> and
  \<^verbatim>\<open>table->get_manager()->average_cache_size()\<close>, all three declared in the missing
  headers and taken as parameters.
\<close>

record table_env =
  is_expandable :: bool
  table_size :: int
  average_size :: int

text \<open>
  \<^verbatim>\<open>get_empty_page\<close> runs with the bucket lock held and gives it up at two places:
  to wait when every page is referenced, and to call \<^verbatim>\<open>table->expand(this)\<close>. Both
  come back to the label \<^verbatim>\<open>search_again\<close>. One pass from that label is modelled, with
  the local \<^verbatim>\<open>expanded\<close> as an argument; the two places where the lock is released are
  results of their own, since other threads run there.
\<close>

datatype gep_result =
  Victim nat hash_cell
  | WaitUnreferenced hash_cell
  | CallExpand hash_cell

definition get_empty_page :: "table_env \<Rightarrow> bool \<Rightarrow> hash_cell \<Rightarrow> gep_result" where
  "get_empty_page env expanded c =
     (case evict_page c of
        (None, c1) \<Rightarrow> WaitUnreferenced c1
      | (Some i, c1) \<Rightarrow>
          if is_expandable env \<and> expand_buffer (buf c1 i) then
            (let c2 = c1\<lparr>overflow := True\<rparr>
             in if table_size env < average_size env \<and> \<not> expanded then CallExpand c2
                else Victim i c2)
          else Victim i c1)"

text \<open>
  \<^verbatim>\<open>hash_cell::search(off_t off, off_t &old_off)\<close>. The reference parameter
  \<^verbatim>\<open>old_off\<close> is an argument and a component of the result. \<open>access_page\<close> is the
  policy's \<^verbatim>\<open>access_page\<close>, declared in the missing header for CLOCK and taken as a
  parameter. \<open>search_tail\<close> is the part after the page has been chosen:
  \<^verbatim>\<open>inc_ref\<close>, the scaling when the counter is full, and \<^verbatim>\<open>hit\<close>.
\<close>

datatype search_result =
  Returned nat int hash_cell
  | Waiting hash_cell
  | Expanding hash_cell

definition search_tail :: "nat \<Rightarrow> hash_cell \<Rightarrow> hash_cell" where
  "search_tail i c =
     (let c1 = set_page i (inc_ref (buf c i)) c;
          c2 = (if hits (buf c1 i) = 255 then scale_down_hits c1 else c1)
      in set_page i (hit (buf c2 i)) c2)"

definition search_miss :: "table_env \<Rightarrow> int \<Rightarrow> bool \<Rightarrow> int \<Rightarrow> hash_cell \<Rightarrow> search_result" where
  "search_miss env invalid_off expanded off c =
     (case get_empty_page env expanded c of
        WaitUnreferenced c1 \<Rightarrow> Waiting c1
      | CallExpand c1 \<Rightarrow> Expanding c1
      | Victim i c1 \<Rightarrow>
          (let ret = buf c1 i;
               ret1 = (if dirty ret \<and> \<not> old_dirty ret
                       then ret\<lparr>dirty := False, old_dirty := True\<rparr> else ret);
               old_off = offset ret1;
               old_off1 = (if old_off = invalid_off then - 1 else old_off);
               ret2 = ret1\<lparr>offset := off\<rparr>
           in Returned i old_off1 (search_tail i (set_page i ret2 c1))))"

definition search2 ::
  "(nat \<Rightarrow> hash_cell \<Rightarrow> hash_cell) \<Rightarrow> table_env \<Rightarrow> int \<Rightarrow> int \<Rightarrow> int \<Rightarrow> hash_cell \<Rightarrow> search_result" where
  "search2 access_page env invalid_off off old_off c =
     (case find_offset c off of
        None \<Rightarrow> search_miss env invalid_off False off c
      | Some i \<Rightarrow> Returned i old_off (search_tail i (access_page i c)))"


subsection \<open>Reading a result of \<open>search2\<close>\<close>

definition returned_slot :: "search_result \<Rightarrow> nat option" where
  "returned_slot r = (case r of Returned i old c \<Rightarrow> Some i | _ \<Rightarrow> None)"

definition returned_old_off :: "search_result \<Rightarrow> int option" where
  "returned_old_off r = (case r of Returned i old c \<Rightarrow> Some old | _ \<Rightarrow> None)"

definition result_cell :: "search_result \<Rightarrow> hash_cell" where
  "result_cell r = (case r of Returned i old c \<Rightarrow> c | Waiting c \<Rightarrow> c | Expanding c \<Rightarrow> c)"

subsection \<open>Example buckets\<close>

text \<open>A page that holds valid data of the given offset, clean and unreferenced.\<close>

definition cached_page :: "int \<Rightarrow> nat \<Rightarrow> page" where
  "cached_page off h = \<lparr>offset = off, data = [], data_ready = True, dirty = False,
     old_dirty = False, io_pending = False, hits = h, refcnt = 0\<rparr>"

text \<open>A bucket after sixteen reads of the offsets 0, 4096, ..., 61440, all released:
  every slot holds a clean page that was hit once.\<close>

definition full_cell :: hash_cell where
  "full_cell = \<lparr>hash = 0, buf = (\<lambda>i. cached_page (int i * 4096) 1), clock_head = 0,
     overflow = False, in_queue = False\<rparr>"


definition fixed_env :: table_env where
  "fixed_env = \<lparr>is_expandable = False, table_size = 0, average_size = 0\<rparr>"

section \<open>Properties of the CLOCK policy\<close>

text \<open>What a call of the loop may change in a bucket: nothing but the hits of
  unreferenced pages, which it clears.\<close>

definition frame_ok :: "hash_cell \<Rightarrow> hash_cell \<Rightarrow> bool" where
  "frame_ok c c' = (hash c' = hash c \<and> overflow c' = overflow c \<and> in_queue c' = in_queue c \<and>
     (\<forall>k. buf c' k = buf c k \<or>
        (k < CELL_SIZE \<and> refcnt (buf c k) = 0 \<and> hits (buf c k) \<noteq> 0 \<and>
         buf c' k = reset_hits (buf c k))))"

lemma frame_ok_trans: "frame_ok c c1 \<Longrightarrow> frame_ok c1 c2 \<Longrightarrow> frame_ok c c2"
  unfolding frame_ok_def
  apply (intro conjI allI)
  apply simp_all
  subgoal for k
    by (auto simp: reset_hits_def dest!: spec [of _ k])
  done

lemma clock_turn_frame:
  "clock_turn a d r c = Continue a' d' r' c' \<Longrightarrow> frame_ok c c'"
  "clock_turn a d r c = Stop res c' \<Longrightarrow> frame_ok c c'"
  using CELL_SIZE_pos
  by (auto simp: clock_turn_def Let_def frame_ok_def split: if_splits)

lemma clock_loop_Continue:
  "clock_turn a d r c = Continue a1 d1 r1 c1 \<Longrightarrow> clock_loop a d r c = clock_loop a1 d1 r1 c1"
  by (simp add: clock_loop.simps [of a d r c])

lemma clock_loop_Stop:
  "clock_turn a d r c = Stop ret c1 \<Longrightarrow> clock_loop a d r c = (ret, c1)"
  by (simp add: clock_loop.simps [of a d r c])

lemma clock_loop_frame:
  "clock_loop a d r c = (res, c') \<Longrightarrow> frame_ok c c'"
proof (induction a d r c rule: clock_loop.induct)
  case (1 a d r c)
  show ?case
  proof (cases "clock_turn a d r c")
    case (Continue a1 d1 r1 c1)
    with "1.prems" have "clock_loop a1 d1 r1 c1 = (res, c')"
      by (simp add: clock_loop_Continue)
    then have "frame_ok c1 c'" using "1.IH" Continue by blast
    with clock_turn_frame(1) [OF Continue] show ?thesis by (rule frame_ok_trans)
  next
    case (Stop ret c1)
    with "1.prems" have "c1 = c'" by (simp add: clock_loop_Stop)
    with clock_turn_frame(2) [OF Stop] show ?thesis by simp
  qed
qed

lemma clock_turn_Stop_Some:
  "clock_turn a d r c = Stop (Some i) c' \<Longrightarrow>
     c' = c \<and> i = clock_head c mod CELL_SIZE \<and> i < CELL_SIZE \<and>
     refcnt (buf c i) = 0 \<and> hits (buf c i) = 0"
  using CELL_SIZE_pos
  by (auto simp: clock_turn_def Let_def split: if_splits)

lemma clock_loop_chosen:
  "clock_loop a d r c = (Some i, c') \<Longrightarrow>
     i < CELL_SIZE \<and> refcnt (buf c' i) = 0 \<and> hits (buf c' i) = 0"
proof (induction a d r c rule: clock_loop.induct)
  case (1 a d r c)
  show ?case
  proof (cases "clock_turn a d r c")
    case (Continue a1 d1 r1 c1)
    with "1.prems" have "clock_loop a1 d1 r1 c1 = (Some i, c')"
      by (simp add: clock_loop_Continue)
    then show ?thesis using "1.IH" Continue by blast
  next
    case (Stop ret c1)
    with "1.prems" have s: "clock_turn a d r c = Stop (Some i) c'"
      by (simp add: clock_loop_Stop)
    from clock_turn_Stop_Some [OF s] show ?thesis by metis
  qed
qed




lemma evict_page_Some:
  assumes "evict_page c = (Some i, c')"
  shows "i < CELL_SIZE \<and> refcnt (buf c i) = 0 \<and>
         buf c' i = (buf c i)\<lparr>data_ready := False, hits := 0\<rparr> \<and>
         hash c' = hash c \<and> overflow c' = overflow c \<and> in_queue c' = in_queue c"
proof -
  obtain c1 where l: "clock_loop True 0 0 c = (Some i, c1)"
    and c': "c' = set_page i (reset_hits ((buf c1 i)\<lparr>data_ready := False\<rparr>)) c1"
    using assms by (auto simp: evict_page_def split: prod.splits option.splits)
  from clock_loop_chosen [OF l] have i: "i < CELL_SIZE" "refcnt (buf c1 i) = 0" by simp_all
  from clock_loop_frame [OF l] have f: "frame_ok c c1" .
  then have "buf c1 i = buf c i \<or> buf c1 i = reset_hits (buf c i)"
    by (auto simp: frame_ok_def)
  then show ?thesis
    using i f c' by (auto simp: frame_ok_def set_page_def reset_hits_def)
qed


















lemma upt_CELL_SIZE: "[0..<CELL_SIZE] = [0, 1, 2, 3, 4, 5, 6, 7, 8, 9, 10, 11, 12, 13, 14, 15]"
  by (simp add: CELL_SIZE_def upt_rec)







section \<open>Properties of the bucket search\<close>

lemma search_tail_slot:
  "buf (search_tail i c) i =
     (buf c i)\<lparr>refcnt := refcnt (buf c i) + 1, hits := hits (buf (search_tail i c) i)\<rparr>"
  by (simp add: search_tail_def set_page_def inc_ref_def hit_def scale_down_hits_def Let_def)

lemma find_offset_None:
  "find_offset c off = None \<longleftrightarrow> (\<forall>k<CELL_SIZE. offset (buf c k) \<noteq> off)"
  by (auto simp: find_offset_def find_None_iff)

lemma find_offset_Some:
  "find_offset c off = Some i \<Longrightarrow> i < CELL_SIZE \<and> offset (buf c i) = off"
  by (auto simp: find_offset_def find_Some_iff)

lemma find_full_cell_miss: "find_offset full_cell 65536 = None"
  by (simp add: find_offset_def upt_CELL_SIZE full_cell_def cached_page_def)

lemma search_full_cell_miss:
  "returned_slot (search2 (\<lambda>i c. c) fixed_env (- 4096) 65536 (- 1) full_cell) = Some 0 \<and>
   returned_old_off (search2 (\<lambda>i c. c) fixed_env (- 4096) 65536 (- 1) full_cell) = Some 0"
  apply (simp add: search2_def find_full_cell_miss)
  apply (simp add: search_miss_def get_empty_page_def fixed_env_def
      evict_page_def clock_loop.simps clock_turn_def full_cell_def cached_page_def
      CELL_SIZE_def Let_def reset_hits_def set_page_def returned_slot_def returned_old_off_def)
  done

lemma Returned_projections:
  "returned_slot r = Some i \<Longrightarrow> returned_old_off r = Some old \<Longrightarrow>
   r = Returned i old (result_cell r)"
  by (cases r) (simp_all add: returned_slot_def returned_old_off_def result_cell_def)

text \<open>
  C1, as amended. When \<open>search2\<close> misses (no slot holds the offset) and returns the
  victim in slot \<open>i\<close>: the victim was unreferenced; \<open>old_off\<close> is the victim's prior
  offset whether or not the victim was dirty, and \<open>-1\<close> only when that offset is
  \<^verbatim>\<open>PAGE_INVALID_OFFSET\<close>; a victim that was dirty and not yet old-dirty comes back
  old-dirty and no longer dirty, any other victim keeps both flags; the page carries the
  new offset and the caller's reference. So \<open>old_off \<noteq> -1\<close> tells the caller that an
  initialised page was evicted, and \<open>old_dirty\<close> whether it has to be written back.
\<close>

theorem search2_miss_old_off:
  assumes "\<forall>k<CELL_SIZE. offset (buf c k) \<noteq> off"
    and "search2 access_page env invalid_off off old_off c = Returned i old_off' c'"
  shows "i < CELL_SIZE \<and> refcnt (buf c i) = 0 \<and>
     old_off' = (if offset (buf c i) = invalid_off then - 1 else offset (buf c i)) \<and>
     old_dirty (buf c' i) = (dirty (buf c i) \<or> old_dirty (buf c i)) \<and>
     dirty (buf c' i) = (dirty (buf c i) \<and> old_dirty (buf c i)) \<and>
     offset (buf c' i) = off \<and> refcnt (buf c' i) = 1"
proof -
  from assms(1) have "find_offset c off = None" by (simp add: find_offset_None)
  with assms(2) have m: "search_miss env invalid_off False off c = Returned i old_off' c'"
    by (simp add: search2_def)
  then obtain c1 where g: "get_empty_page env False c = Victim i c1"
    by (auto simp: search_miss_def Let_def split: gep_result.splits)
  then obtain c0 where e: "evict_page c = (Some i, c0)" and b: "buf c1 = buf c0"
    by (auto simp: get_empty_page_def Let_def split: prod.splits option.splits if_splits)
  note ev = evict_page_Some [OF e]
  from m g have r: "old_off' = (if offset (buf c1 i) = invalid_off then - 1 else offset (buf c1 i))"
    and c': "c' = search_tail i (set_page i ((if dirty (buf c1 i) \<and> \<not> old_dirty (buf c1 i)
                       then (buf c1 i)\<lparr>dirty := False, old_dirty := True\<rparr>
                       else buf c1 i)\<lparr>offset := off\<rparr>) c1)"
    by (auto simp: search_miss_def Let_def)
  have s: "buf c1 i = (buf c i)\<lparr>data_ready := False, hits := 0\<rparr>" using ev b by simp
  show ?thesis
    using ev r
    apply (simp add: s)
    apply (subst c', subst search_tail_slot, simp add: set_page_def s)+
    apply auto
    done
qed

theorem search2_miss_old_off_witness:
  "returned_old_off (search2 (\<lambda>i c. c) fixed_env (- 4096) 65536 (- 1) full_cell) = Some 0 \<and>
   offset (buf (result_cell (search2 (\<lambda>i c. c) fixed_env (- 4096) 65536 (- 1) full_cell)) 0)
     = 65536 \<and>
   refcnt (buf (result_cell (search2 (\<lambda>i c. c) fixed_env (- 4096) 65536 (- 1) full_cell)) 0)
     = 1"
proof -
  let ?r = "search2 (\<lambda>i c. c) fixed_env (- 4096) 65536 (- 1) full_cell"
  have miss: "\<forall>k<CELL_SIZE. offset (buf full_cell k) \<noteq> 65536"
    using find_full_cell_miss by (simp add: find_offset_None)
  have r: "?r = Returned 0 0 (result_cell ?r)"
    using search_full_cell_miss by (intro Returned_projections) simp_all
  from search2_miss_old_off [OF miss r] search_full_cell_miss show ?thesis by simp
qed

text \<open>
  C1 as stated fails: the search for 65536 in the full bucket misses and evicts slot 0,
  a clean page, and \<open>old_off\<close> comes back as that page's offset 0, not as \<open>-1\<close>.
\<close>

theorem search2_miss_old_off_counterexample:
  "find_offset full_cell 65536 = None \<and> \<not> dirty (buf full_cell 0) \<and>
   returned_slot (search2 (\<lambda>i c. c) fixed_env (- 4096) 65536 (- 1) full_cell) = Some 0 \<and>
   returned_old_off (search2 (\<lambda>i c. c) fixed_env (- 4096) 65536 (- 1) full_cell) = Some 0 \<and>
   returned_old_off (search2 (\<lambda>i c. c) fixed_env (- 4096) 65536 (- 1) full_cell) \<noteq> Some (- 1)"
  using find_full_cell_miss search_full_cell_miss by (simp add: full_cell_def cached_page_def)

text \<open>
  C9. On a hit (some slot holds the offset) \<open>search2\<close> returns, and the \<open>old_off\<close> it
  hands back is the value the caller passed in, whatever that value is: the search does
  not write it. The \<open>-1\<close> that \<^verbatim>\<open>global_cached_io::access\<close> reads as a hit is the one it
  stored in \<open>old_off\<close> before the call.
\<close>

theorem search2_hit_old_off:
  assumes "k < CELL_SIZE" and "offset (buf c k) = off"
  shows "\<exists>i c'. search2 access_page env invalid_off off old_off c = Returned i old_off c' \<and>
           i < CELL_SIZE \<and> offset (buf c i) = off"
proof -
  from assms have "find_offset c off \<noteq> None" by (auto simp: find_offset_None)
  then obtain i where f: "find_offset c off = Some i" by blast
  from find_offset_Some [OF f] f show ?thesis by (simp add: search2_def)
qed

theorem search2_hit_old_off_witness:
  "returned_old_off (search2 (\<lambda>i c. c) fixed_env (- 4096) 4096 7 full_cell) = Some 7"
proof -
  have k: "(1::nat) < CELL_SIZE" by (simp add: CELL_SIZE_def)
  have o: "offset (buf full_cell 1) = 4096" by (simp add: full_cell_def cached_page_def)
  from search2_hit_old_off [OF k o, of "\<lambda>i c. c" fixed_env "- 4096" 7]
  show ?thesis by (auto simp: returned_old_off_def)
qed


section \<open>Rehashing a bucket\<close>

text \<open>How a function of the sources can fail to return: a failing \<^verbatim>\<open>assert\<close>, a
  null pointer that is dereferenced, a vector indexed out of its bounds, a division by
  zero, an array \<^verbatim>\<open>new\<close> of negative length (an exception that nothing catches), a call
  of \<^verbatim>\<open>exit\<close>.\<close>

datatype error =
  AssertionFailed | NullPointer | OutOfBounds | DivisionByZero | BadAlloc | Exit int

text \<open>\<^verbatim>\<open>page::set_hits\<close>, a setter of the missing header.\<close>

definition set_hits :: "nat \<Rightarrow> page \<Rightarrow> page" where
  "set_hits h pg = pg\<lparr>hits := h\<rparr>"

text \<open>
  \<^verbatim>\<open>hash_cell::rehash\<close>. The state of its loop is the counter \<open>j\<close> and the pages of the
  two buckets; \<open>rehash_turn\<close> is the body for the source slot \<open>i\<close>, \<open>rehash_upto n\<close> the
  state after the first \<open>n\<close> turns, and the failing \<^verbatim>\<open>assert\<close> is an error.
  \<^verbatim>\<open>table->hash1_locked\<close> is declared in the missing header and is the parameter
  \<open>hash1_locked\<close>.
\<close>

type_synonym rehash_state = "nat \<times> (nat \<Rightarrow> page) \<times> (nat \<Rightarrow> page)"

definition rehash_turn ::
  "(int \<Rightarrow> int) \<Rightarrow> int \<Rightarrow> int \<Rightarrow> int \<Rightarrow> nat \<Rightarrow> rehash_state \<Rightarrow> error + rehash_state" where
  "rehash_turn hash1_locked invalid_off this_hash expanded_hash i st =
     (case st of (j, sbuf, ebuf) \<Rightarrow>
        let pg = sbuf i; hash1 = hash1_locked (offset pg)
        in if hash1 \<noteq> expanded_hash then Inr (j, sbuf(i := set_hits 1 pg), ebuf)
           else if this_hash \<noteq> hash1 then
             (let expanded_pg = ebuf j
              in if refcnt pg \<noteq> 0 then Inr (j, sbuf, ebuf)
                 else if initialized invalid_off expanded_pg then Inl AssertionFailed
                 else Inr (j + 1, sbuf(i := expanded_pg), ebuf(j := pg)))
           else Inr (j, sbuf, ebuf))"

primrec rehash_upto ::
  "(int \<Rightarrow> int) \<Rightarrow> int \<Rightarrow> int \<Rightarrow> int \<Rightarrow> rehash_state \<Rightarrow> nat \<Rightarrow> error + rehash_state" where
  "rehash_upto hash1_locked invalid_off this_hash expanded_hash st 0 = Inr st"
| "rehash_upto hash1_locked invalid_off this_hash expanded_hash st (Suc n) =
     (case rehash_upto hash1_locked invalid_off this_hash expanded_hash st n of
        Inl e \<Rightarrow> Inl e
      | Inr st' \<Rightarrow> rehash_turn hash1_locked invalid_off this_hash expanded_hash n st')"

definition rehash ::
  "(int \<Rightarrow> int) \<Rightarrow> int \<Rightarrow> hash_cell \<Rightarrow> hash_cell \<Rightarrow> error + (hash_cell \<times> hash_cell)" where
  "rehash hash1_locked invalid_off this expanded =
     (case rehash_upto hash1_locked invalid_off (hash this) (hash expanded)
             (0, buf this, buf expanded) CELL_SIZE of
        Inl e \<Rightarrow> Inl e
      | Inr (j, sbuf, ebuf) \<Rightarrow> Inr (this\<lparr>buf := sbuf, overflow := False\<rparr>, expanded\<lparr>buf := ebuf\<rparr>))"


subsection \<open>An example split\<close>

text \<open>Modelled from the spec: the page as its constructor in the missing header leaves
  it, the state "Empty (offset invalid)": a frame that was never given an offset.\<close>

definition fresh_page :: "int \<Rightarrow> page" where
  "fresh_page invalid_off = \<lparr>offset = invalid_off, data = [], data_ready = False, dirty = False,
     old_dirty = False, io_pending = False, hits = 0, refcnt = 0\<rparr>"

text \<open>The second hash function of a table of two initial buckets in round 0: the page
  number modulo 4.\<close>

definition page_hash1 :: "int \<Rightarrow> int" where
  "page_hash1 off = (off div PAGE_SIZE) mod 4"

text \<open>Bucket 0 is split into bucket 2. Slot 0 holds page 2, in use by one holder; slot 1
  holds page 6; slot 2 holds page 0, which stays in bucket 0; slot 3 holds page 1, which
  belongs to neither. The target is new.\<close>

definition split_source :: hash_cell where
  "split_source = \<lparr>hash = 0,
     buf = (\<lambda>i. fresh_page (- 4096))
       (0 := (cached_page 8192 5)\<lparr>refcnt := 1\<rparr>, 1 := cached_page 24576 2,
        2 := cached_page 0 7, 3 := cached_page 4096 3),
     clock_head = 0, overflow = True, in_queue = False\<rparr>"

definition split_target :: hash_cell where
  "split_target = \<lparr>hash = 2, buf = (\<lambda>i. fresh_page (- 4096)), clock_head = 0,
     overflow = False, in_queue = False\<rparr>"

text \<open>What the first \<open>n\<close> turns have done to each source slot \<open>k < n\<close>, against the
  pages \<open>s0\<close> and \<open>e0\<close> the two buckets held at the start.\<close>

definition slot_done ::
  "(int \<Rightarrow> int) \<Rightarrow> int \<Rightarrow> int \<Rightarrow> int \<Rightarrow> (nat \<Rightarrow> page) \<Rightarrow> (nat \<Rightarrow> page) \<Rightarrow> rehash_state \<Rightarrow> nat \<Rightarrow> bool" where
  "slot_done h1 inv0 sh eh s0 e0 st k =
     (case st of (j, s, e) \<Rightarrow>
        (h1 (offset (s0 k)) \<noteq> eh \<longrightarrow> s k = set_hits 1 (s0 k)) \<and>
        (h1 (offset (s0 k)) = eh \<and> (sh = eh \<or> refcnt (s0 k) \<noteq> 0) \<longrightarrow> s k = s0 k) \<and>
        (h1 (offset (s0 k)) = eh \<and> sh \<noteq> eh \<and> refcnt (s0 k) = 0 \<longrightarrow>
           (\<exists>m<j. e m = s0 k \<and> s k = e0 m \<and> \<not> initialized inv0 (e0 m))))"

definition rehashed ::
  "(int \<Rightarrow> int) \<Rightarrow> int \<Rightarrow> int \<Rightarrow> int \<Rightarrow> (nat \<Rightarrow> page) \<Rightarrow> (nat \<Rightarrow> page) \<Rightarrow> nat \<Rightarrow> rehash_state \<Rightarrow> bool" where
  "rehashed h1 inv0 sh eh s0 e0 n st =
     (case st of (j, s, e) \<Rightarrow>
        j \<le> n \<and> (\<forall>k\<ge>n. s k = s0 k) \<and> (\<forall>m\<ge>j. e m = e0 m) \<and>
        (\<forall>k<n. slot_done h1 inv0 sh eh s0 e0 st k))"

lemma slot_done_keep:
  assumes "slot_done h1 inv0 sh eh s0 e0 (j, s, e) k" and "s' k = s k" and "j \<le> j'"
    and "\<forall>m<j. e' m = e m"
  shows "slot_done h1 inv0 sh eh s0 e0 (j', s', e') k"
  unfolding slot_done_def prod.case
proof (intro conjI impI)
  assume "h1 (offset (s0 k)) = eh \<and> sh \<noteq> eh \<and> refcnt (s0 k) = 0"
  with assms(1) obtain m where m: "m < j" "e m = s0 k" "s k = e0 m" "\<not> initialized inv0 (e0 m)"
    unfolding slot_done_def by auto
  then show "\<exists>m<j'. e' m = s0 k \<and> s' k = e0 m \<and> \<not> initialized inv0 (e0 m)"
    using assms(2-4) by (intro exI [of _ m]) auto
qed (use assms in \<open>auto simp: slot_done_def\<close>)

lemma rehash_turn_cases:
  assumes "rehash_turn h1 inv0 sh eh i (j, s, e) = Inr st'"
  obtains (stale) "h1 (offset (s i)) \<noteq> eh" "st' = (j, s(i := set_hits 1 (s i)), e)"
    | (kept) "h1 (offset (s i)) = eh" "sh = eh \<or> refcnt (s i) \<noteq> 0" "st' = (j, s, e)"
    | (moved) "h1 (offset (s i)) = eh" "sh \<noteq> eh" "refcnt (s i) = 0"
        "\<not> initialized inv0 (e j)" "st' = (Suc j, s(i := e j), e(j := s i))"
  using assms by (auto simp: rehash_turn_def Let_def split: if_splits)

lemma rehashedI:
  assumes "j \<le> n" and "\<forall>k\<ge>n. s k = s0 k" and "\<forall>m\<ge>j. e m = e0 m"
    and "\<forall>k<n. slot_done h1 inv0 sh eh s0 e0 (j, s, e) k"
  shows "rehashed h1 inv0 sh eh s0 e0 n (j, s, e)"
  unfolding rehashed_def prod.case using assms by blast

lemma rehashedD:
  assumes "rehashed h1 inv0 sh eh s0 e0 n (j, s, e)"
  shows "j \<le> n" and "\<forall>k\<ge>n. s k = s0 k" and "\<forall>m\<ge>j. e m = e0 m"
    and "\<forall>k<n. slot_done h1 inv0 sh eh s0 e0 (j, s, e) k"
  using assms unfolding rehashed_def prod.case by blast+

lemma rehashed_turn:
  assumes "rehashed h1 inv0 sh eh s0 e0 n st"
    and "rehash_turn h1 inv0 sh eh n st = Inr st'"
  shows "rehashed h1 inv0 sh eh s0 e0 (Suc n) st'"
proof -
  obtain j s e where st: "st = (j, s, e)" by (cases st)
  note r = rehashedD [OF assms(1) [unfolded st]]
  from r(2) have sn: "s n = s0 n" by blast
  from r(3) have ej: "e j = e0 j" by blast
  have old: "slot_done h1 inv0 sh eh s0 e0 (j', s', e') k"
    if "k < n" "s' k = s k" "j \<le> j'" "\<forall>m<j. e' m = e m" for k j' s' e'
  proof -
    from r(4) that(1) have "slot_done h1 inv0 sh eh s0 e0 (j, s, e) k" by blast
    then show ?thesis using that(2-4) by (rule slot_done_keep)
  qed
  from assms(2) [unfolded st] show ?thesis
  proof (cases rule: rehash_turn_cases)
    case stale
    have new: "slot_done h1 inv0 sh eh s0 e0 (j, s(n := set_hits 1 (s n)), e) n"
      unfolding slot_done_def prod.case using stale(1) sn by simp
    have "\<forall>k<Suc n. slot_done h1 inv0 sh eh s0 e0 (j, s(n := set_hits 1 (s n)), e) k"
    proof (intro allI impI)
      fix k assume "k < Suc n"
      then consider "k < n" | "k = n" by linarith
      then show "slot_done h1 inv0 sh eh s0 e0 (j, s(n := set_hits 1 (s n)), e) k"
      proof cases
        case 1
        then show ?thesis by (intro old) simp_all
      next
        case 2
        then show ?thesis using new by simp
      qed
    qed
    moreover have "\<forall>k\<ge>Suc n. (s(n := set_hits 1 (s n))) k = s0 k"
      using r(2) by simp
    moreover have "j \<le> Suc n" using r(1) by simp
    ultimately show ?thesis
      unfolding stale(2) using r(3) by (intro rehashedI) blast+
  next
    case kept
    have new: "slot_done h1 inv0 sh eh s0 e0 (j, s, e) n"
      unfolding slot_done_def prod.case using kept(1,2) sn by auto
    have "\<forall>k<Suc n. slot_done h1 inv0 sh eh s0 e0 (j, s, e) k"
    proof (intro allI impI)
      fix k assume "k < Suc n"
      then consider "k < n" | "k = n" by linarith
      then show "slot_done h1 inv0 sh eh s0 e0 (j, s, e) k"
      proof cases
        case 1
        then show ?thesis using r(4) by blast
      next
        case 2
        then show ?thesis using new by simp
      qed
    qed
    moreover have "\<forall>k\<ge>Suc n. s k = s0 k"
      using r(2) by simp
    moreover have "j \<le> Suc n" using r(1) by simp
    ultimately show ?thesis
      unfolding kept(3) using r(3) by (intro rehashedI) blast+
  next
    case moved
    have new: "slot_done h1 inv0 sh eh s0 e0 (Suc j, s(n := e j), e(j := s n)) n"
      unfolding slot_done_def prod.case using moved(1-4) sn ej
      by (auto intro!: exI [of _ j])
    have "\<forall>k<Suc n. slot_done h1 inv0 sh eh s0 e0 (Suc j, s(n := e j), e(j := s n)) k"
    proof (intro allI impI)
      fix k assume "k < Suc n"
      then consider "k < n" | "k = n" by linarith
      then show "slot_done h1 inv0 sh eh s0 e0 (Suc j, s(n := e j), e(j := s n)) k"
      proof cases
        case 1
        then show ?thesis by (intro old) simp_all
      next
        case 2
        then show ?thesis using new by simp
      qed
    qed
    moreover have "\<forall>k\<ge>Suc n. (s(n := e j)) k = s0 k"
      using r(2) by simp
    moreover have "\<forall>m\<ge>Suc j. (e(j := s n)) m = e0 m"
      using r(3) by simp
    moreover have "Suc j \<le> Suc n" using r(1) by simp
    ultimately show ?thesis
      unfolding moved(5) by (intro rehashedI) blast+
  qed
qed

lemma rehash_upto_rehashed:
  "rehash_upto h1 inv0 sh eh (0, s0, e0) n = Inr st \<Longrightarrow> rehashed h1 inv0 sh eh s0 e0 n st"
proof (induction n arbitrary: st)
  case 0
  then show ?case by (auto simp: rehashed_def)
next
  case (Suc n)
  then obtain st1 where a: "rehash_upto h1 inv0 sh eh (0, s0, e0) n = Inr st1"
    and b: "rehash_turn h1 inv0 sh eh n st1 = Inr st"
    by (auto split: sum.splits)
  from Suc.IH [OF a] b show ?case by (rule rehashed_turn)
qed

lemma rehash_split_example:
  "\<not> isl (rehash page_hash1 (- 4096) split_source split_target) \<and>
   hits (buf (fst (projr (rehash page_hash1 (- 4096) split_source split_target))) 0) = 5 \<and>
   hits (buf (fst (projr (rehash page_hash1 (- 4096) split_source split_target))) 2) = 1 \<and>
   buf (snd (projr (rehash page_hash1 (- 4096) split_source split_target))) 0 = cached_page 24576 2"
  by (simp add: rehash_def rehash_turn_def CELL_SIZE_def eval_nat_numeral split_source_def
      split_target_def page_hash1_def PAGE_SIZE_def fresh_page_def cached_page_def
      initialized_def set_hits_def Let_def)

text \<open>
  C4, as amended. For every page of the source bucket, when \<open>rehash\<close> returns: a page
  whose \<open>hash1\<close> is not the target bucket (a stale mis-mapped page, and just as well a
  page that belongs in the source) is left in place with its hits set to 1; a page that
  \<open>hash1\<close> maps to the target and that is referenced is left in place unchanged, hits
  included; a page that \<open>hash1\<close> maps to the target and that is unreferenced is swapped
  with an uninitialised slot of the target.
\<close>

theorem rehash_pages:
  assumes "rehash hash1_locked invalid_off this expanded = Inr (this', expanded')"
    and "i < CELL_SIZE"
  shows "(hash1_locked (offset (buf this i)) \<noteq> hash expanded \<longrightarrow>
            buf this' i = set_hits 1 (buf this i)) \<and>
         (hash1_locked (offset (buf this i)) = hash expanded \<and> hash this \<noteq> hash expanded \<and>
          refcnt (buf this i) \<noteq> 0 \<longrightarrow> buf this' i = buf this i) \<and>
         (hash1_locked (offset (buf this i)) = hash expanded \<and> hash this \<noteq> hash expanded \<and>
          refcnt (buf this i) = 0 \<longrightarrow>
            (\<exists>j<CELL_SIZE. \<not> initialized invalid_off (buf expanded j) \<and>
               buf expanded' j = buf this i \<and> buf this' i = buf expanded j))"
proof -
  from assms(1) obtain j s e where
    u: "rehash_upto hash1_locked invalid_off (hash this) (hash expanded)
          (0, buf this, buf expanded) CELL_SIZE = Inr (j, s, e)"
    and t: "buf this' = s" "buf expanded' = e"
    by (auto simp: rehash_def split: sum.splits prod.splits)
  note r = rehashedD [OF rehash_upto_rehashed [OF u]]
  from r(1) have j: "j \<le> CELL_SIZE" .
  from r(4) assms(2)
  have d: "slot_done hash1_locked invalid_off (hash this) (hash expanded)
              (buf this) (buf expanded) (j, s, e) i"
    by blast
  show ?thesis
    unfolding t
  proof (intro conjI impI)
    assume "hash1_locked (offset (buf this i)) = hash expanded \<and> hash this \<noteq> hash expanded \<and>
          refcnt (buf this i) = 0"
    with d obtain m where "m < j" "e m = buf this i" "s i = buf expanded m"
      "\<not> initialized invalid_off (buf expanded m)"
      unfolding slot_done_def by auto
    then show "\<exists>j<CELL_SIZE. \<not> initialized invalid_off (buf expanded j) \<and>
               e j = buf this i \<and> s i = buf expanded j"
      using j by (intro exI [of _ m]) auto
  qed (use d in \<open>auto simp: slot_done_def\<close>)
qed


theorem rehash_pages_witness:
  "buf (fst (projr (rehash page_hash1 (- 4096) split_source split_target))) 3
     = set_hits 1 (buf split_source 3) \<and>
   buf (fst (projr (rehash page_hash1 (- 4096) split_source split_target))) 0
     = buf split_source 0"
proof -
  let ?r = "rehash page_hash1 (- 4096) split_source split_target"
  have r: "?r = Inr (fst (projr ?r), snd (projr ?r))"
    using rehash_split_example by (cases ?r) simp_all
  have i: "(3::nat) < CELL_SIZE" "(0::nat) < CELL_SIZE" by (simp_all add: CELL_SIZE_def)
  have h: "page_hash1 (offset (buf split_source 3)) \<noteq> hash split_target"
    "page_hash1 (offset (buf split_source 0)) = hash split_target"
    "hash split_source \<noteq> hash split_target" "refcnt (buf split_source 0) \<noteq> 0"
    by (simp_all add: split_source_def split_target_def page_hash1_def PAGE_SIZE_def
        cached_page_def)
  from rehash_pages [OF r i(1)] rehash_pages [OF r i(2)] h show ?thesis by blast
qed

text \<open>
  C4 as stated fails: the page in slot 0 maps to the target and is left in place because
  it is referenced, and its hits are still 5 after the rehash, not 1.
\<close>

theorem rehash_pages_counterexample:
  "refcnt (buf split_source 0) = 1 \<and>
   page_hash1 (offset (buf split_source 0)) = hash split_target \<and>
   \<not> isl (rehash page_hash1 (- 4096) split_source split_target) \<and>
   offset (buf (fst (projr (rehash page_hash1 (- 4096) split_source split_target))) 0) = 8192 \<and>
   hits (buf (fst (projr (rehash page_hash1 (- 4096) split_source split_target))) 0) = 5"
proof -
  have "offset (buf (fst (projr (rehash page_hash1 (- 4096) split_source split_target))) 0) = 8192"
    by (simp add: rehash_def rehash_turn_def CELL_SIZE_def eval_nat_numeral split_source_def
      split_target_def page_hash1_def PAGE_SIZE_def fresh_page_def cached_page_def
      initialized_def set_hits_def Let_def)
  then show ?thesis
    using rehash_split_example
    by (simp add: split_source_def split_target_def page_hash1_def PAGE_SIZE_def cached_page_def)
qed


section \<open>The directory and its expansion\<close>

text \<open>
  The fields of \<^verbatim>\<open>associative_cache\<close> that \<^verbatim>\<open>expand\<close> and the constructor read and
  write. \<open>cells_table\<close> is the vector of bucket arrays, \<open>None\<close> a \<^verbatim>\<open>NULL\<close> entry;
  \<open>ncells\<close> is the counter the sources advance by one for every array they put into the
  vector; \<open>table_expanding\<close> is the flag \<^verbatim>\<open>TABLE_EXPANDING\<close>. The memory manager is
  declared in a missing header: its state is the type parameter \<open>'m\<close>, and its
  \<^verbatim>\<open>get_free_pages(CELL_SIZE, ...)\<close> the parameter \<open>get_free_pages\<close>, which says whether
  the pages of one bucket could be had and gives the manager's new state. A bucket is
  named by its global index, where the sources hold a pointer to it.
\<close>

record 'm associative_cache =
  level :: nat
  split :: nat
  init_ncells :: nat
  ncells :: nat
  cells_table :: "hash_cell list option list"
  table_expanding :: bool
  manager :: 'm

text \<open>Modelled from the spec: \<^verbatim>\<open>associative_cache::get_cell\<close> of the missing header;
  the directory is "a vector of bucket groups", and "indexing uses \<open>init_ncells\<close> as the
  group size divisor". \<open>put_cell\<close> stores a bucket back where \<open>get_cell\<close> found it.\<close>

definition get_cell :: "'m associative_cache \<Rightarrow> nat \<Rightarrow> hash_cell option" where
  "get_cell t global_idx =
     (if init_ncells t = 0 then None
      else let cells_idx = global_idx div init_ncells t;
               idx = global_idx mod init_ncells t
           in if cells_idx < length (cells_table t) then
                (case cells_table t ! cells_idx of
                   None \<Rightarrow> None
                 | Some cells \<Rightarrow> if idx < length cells then Some (cells ! idx) else None)
              else None)"

definition put_cell :: "nat \<Rightarrow> hash_cell \<Rightarrow> 'm associative_cache \<Rightarrow> 'm associative_cache" where
  "put_cell global_idx c t =
     (let cells_idx = global_idx div init_ncells t;
          idx = global_idx mod init_ncells t
      in t\<lparr>cells_table := (cells_table t)
             [cells_idx := map_option (\<lambda>cells. cells[idx := c]) (cells_table t ! cells_idx)]\<rparr>)"

text \<open>
  The constructor \<^verbatim>\<open>hash_cell::hash_cell(cache, hash)\<close>: \<open>None\<close> is the
  \<^verbatim>\<open>oom_exception\<close>. The frames it is given are \<open>fresh_page\<close>s. \<open>new_cells\<close> is the loop
  over \<open>j\<close> that fills one array (\<open>new_cells ... j\<close> is the state after \<open>j\<close> turns), and
  \<open>new_arrays\<close> the loop over \<open>i\<close> that collects the new arrays in the temporary vector
  \<^verbatim>\<open>table\<close>, with the flag \<^verbatim>\<open>out_of_memory\<close>; \<open>install_arrays\<close> copies the vector into
  \<open>cells_table\<close> from index \<open>orig_size\<close> on.
\<close>

definition new_hash_cell ::
  "('m \<Rightarrow> bool \<times> 'm) \<Rightarrow> int \<Rightarrow> 'm \<Rightarrow> int \<Rightarrow> hash_cell option \<times> 'm" where
  "new_hash_cell get_free_pages invalid_off m h =
     (case get_free_pages m of
        (False, m') \<Rightarrow> (None, m')
      | (True, m') \<Rightarrow>
          (Some \<lparr>hash = h, buf = (\<lambda>i. fresh_page invalid_off), clock_head = 0,
                 overflow = False, in_queue = False\<rparr>, m'))"

primrec new_cells ::
  "('m \<Rightarrow> bool \<times> 'm) \<Rightarrow> int \<Rightarrow> nat \<Rightarrow> 'm \<Rightarrow> nat \<Rightarrow> hash_cell list option \<times> 'm" where
  "new_cells get_free_pages invalid_off base m 0 = (Some [], m)"
| "new_cells get_free_pages invalid_off base m (Suc j) =
     (case new_cells get_free_pages invalid_off base m j of
        (None, m') \<Rightarrow> (None, m')
      | (Some cells, m') \<Rightarrow>
          (case new_hash_cell get_free_pages invalid_off m' (int (base + j)) of
             (None, m'') \<Rightarrow> (None, m'')
           | (Some c, m'') \<Rightarrow> (Some (cells @ [c]), m'')))"

primrec new_arrays ::
  "('m \<Rightarrow> bool \<times> 'm) \<Rightarrow> int \<Rightarrow> nat \<Rightarrow> nat \<Rightarrow> 'm \<Rightarrow> nat
     \<Rightarrow> hash_cell list list \<times> bool \<times> 'm" where
  "new_arrays get_free_pages invalid_off init orig_size m 0 = ([], False, m)"
| "new_arrays get_free_pages invalid_off init orig_size m (Suc k) =
     (case new_arrays get_free_pages invalid_off init orig_size m k of
        (table, True, m') \<Rightarrow> (table, True, m')
      | (table, False, m') \<Rightarrow>
          (case new_cells get_free_pages invalid_off ((orig_size + k) * init) m' init of
             (None, m'') \<Rightarrow> (table, True, m'')
           | (Some cells, m'') \<Rightarrow> (table @ [cells], False, m'')))"

fun install_arrays ::
  "hash_cell list list \<Rightarrow> nat \<Rightarrow> hash_cell list option list
     \<Rightarrow> error + hash_cell list option list" where
  "install_arrays [] i ct = Inr ct"
| "install_arrays (cells # table) i ct =
     (if i < length ct then install_arrays table (i + 1) (ct[i := Some cells])
      else Inl OutOfBounds)"

text \<open>
  One turn of the \<^verbatim>\<open>while\<close> loop of \<^verbatim>\<open>associative_cache::expand\<close>: \<open>grow_table\<close> is
  the block under \<^verbatim>\<open>if (cells_idx >= orig_size)\<close>, and the turn ends with the
  \<^verbatim>\<open>return false\<close> after a failed allocation, with the \<^verbatim>\<open>break\<close> after \<open>level\<close> was
  incremented, or at the end of the body. \<open>sz\<close> is the local \<^verbatim>\<open>size\<close>, computed once
  before the loop. \<^verbatim>\<open>hash1_locked\<close> is declared in the missing header and is a
  parameter that may read the table.
\<close>

datatype 'm turn_result =
  TurnError error
  | TurnOutOfMemory "'m associative_cache"
  | TurnBreak "'m associative_cache"
  | TurnContinue "'m associative_cache"

definition grow_table ::
  "('m \<Rightarrow> bool \<times> 'm) \<Rightarrow> int \<Rightarrow> nat \<Rightarrow> 'm associative_cache
     \<Rightarrow> error + (bool \<times> 'm associative_cache)" where
  "grow_table get_free_pages invalid_off cells_idx t =
     (let orig_size = ncells t
      in if cells_idx \<ge> orig_size then
           (case new_arrays get_free_pages invalid_off (init_ncells t) orig_size (manager t)
                   (cells_idx + 1 - orig_size) of
              (table, out_of_memory, m') \<Rightarrow>
                (case install_arrays table orig_size (cells_table t) of
                   Inl e \<Rightarrow> Inl e
                 | Inr ct \<Rightarrow>
                     Inr (out_of_memory,
                          t\<lparr>cells_table := ct, ncells := ncells t + length table,
                            manager := m'\<rparr>)))
         else Inr (False, t))"

definition expand_turn ::
  "('m \<Rightarrow> bool \<times> 'm) \<Rightarrow> ('m associative_cache \<Rightarrow> int \<Rightarrow> int) \<Rightarrow> int \<Rightarrow> nat
     \<Rightarrow> 'm associative_cache \<Rightarrow> 'm turn_result" where
  "expand_turn get_free_pages hash1_locked invalid_off sz t =
     (if init_ncells t = 0 then TurnError DivisionByZero
      else
        (case grow_table get_free_pages invalid_off ((split t + sz) div init_ncells t) t of
           Inl e \<Rightarrow> TurnError e
         | Inr (True, t1) \<Rightarrow> TurnOutOfMemory t1
         | Inr (False, t1) \<Rightarrow>
             (case get_cell t1 (split t1) of
                None \<Rightarrow> TurnError NullPointer
              | Some cell \<Rightarrow>
                  (case get_cell t1 (split t1 + sz) of
                     None \<Rightarrow> TurnError NullPointer
                   | Some expanded_cell \<Rightarrow>
                       (case rehash (hash1_locked t1) invalid_off cell expanded_cell of
                          Inl e \<Rightarrow> TurnError e
                        | Inr (cell', expanded_cell') \<Rightarrow>
                            (let t2 = put_cell (split t1 + sz) expanded_cell'
                                        (put_cell (split t1) cell' t1);
                                 t3 = t2\<lparr>split := split t2 + 1\<rparr>
                             in if split t3 = sz
                                then TurnBreak (t3\<lparr>level := level t3 + 1, split := 0\<rparr>)
                                else TurnContinue t3))))))"

lemma put_cell_fields [simp]:
  "level (put_cell i c t) = level t" "split (put_cell i c t) = split t"
  "init_ncells (put_cell i c t) = init_ncells t" "ncells (put_cell i c t) = ncells t"
  "length (cells_table (put_cell i c t)) = length (cells_table t)"
  "table_expanding (put_cell i c t) = table_expanding t"
  "manager (put_cell i c t) = manager t"
  by (simp_all add: put_cell_def Let_def)

lemma install_arrays_length:
  "install_arrays table i ct = Inr ct' \<Longrightarrow> length ct' = length ct"
  by (induction table i ct rule: install_arrays.induct) (auto split: if_splits)

lemma grow_table_fields:
  assumes "grow_table alloc inv0 ci t = Inr (b, t1)"
  shows "level t1 = level t" "split t1 = split t" "init_ncells t1 = init_ncells t"
    "length (cells_table t1) = length (cells_table t)" "table_expanding t1 = table_expanding t"
    "ncells t \<le> ncells t1"
  using assms
  by (auto simp: grow_table_def Let_def install_arrays_length
      split: if_splits prod.splits sum.splits)

lemma get_cell_Some_bound:
  "get_cell t i = Some c \<Longrightarrow> i < length (cells_table t) * init_ncells t"
proof -
  assume a: "get_cell t i = Some c"
  then have p: "init_ncells t \<noteq> 0" and d: "i div init_ncells t < length (cells_table t)"
    by (auto simp: get_cell_def Let_def split: if_splits)
  from d have "Suc (i div init_ncells t) \<le> length (cells_table t)" by simp
  then have "Suc (i div init_ncells t) * init_ncells t \<le> length (cells_table t) * init_ncells t"
    by (rule mult_le_mono1)
  moreover have "i < Suc (i div init_ncells t) * init_ncells t"
    using p by (simp add: dividend_less_div_times)
  ultimately show ?thesis by linarith
qed

lemma expand_turn_Continue:
  assumes "expand_turn alloc h1 inv0 sz t = TurnContinue t'"
  shows "split t' = split t + 1" "level t' = level t" "init_ncells t' = init_ncells t"
    "length (cells_table t') = length (cells_table t)"
    "split t + sz < length (cells_table t) * init_ncells t"
    "split t + 1 \<noteq> sz" "table_expanding t' = table_expanding t" "ncells t \<le> ncells t'"
proof -
  from assms obtain t1 cell ec cell' ec' where
    g: "grow_table alloc inv0 ((split t + sz) div init_ncells t) t = Inr (False, t1)"
    and c: "get_cell t1 (split t1 + sz) = Some ec"
    and t': "t' = (put_cell (split t1 + sz) ec' (put_cell (split t1) cell' t1))
                    \<lparr>split := split t1 + 1\<rparr>"
    and ne: "split t1 + 1 \<noteq> sz"
    by (auto simp: expand_turn_def Let_def
        split: if_splits sum.splits prod.splits bool.splits option.splits)
  note f = grow_table_fields [OF g]
  show "split t' = split t + 1" "level t' = level t" "init_ncells t' = init_ncells t"
    "length (cells_table t') = length (cells_table t)" "table_expanding t' = table_expanding t"
    "ncells t \<le> ncells t'"
    using f by (simp_all add: t')
  from get_cell_Some_bound [OF c] f
  show "split t + sz < length (cells_table t) * init_ncells t" by simp
  from ne f show "split t + 1 \<noteq> sz" by simp
qed

text \<open>The \<^verbatim>\<open>while (trigger_cell->is_overflow())\<close> loop with the two statements after it.
  It ends because \<open>split\<close> grows with every turn and the vector has a fixed length.\<close>

function expand_loop ::
  "('m \<Rightarrow> bool \<times> 'm) \<Rightarrow> ('m associative_cache \<Rightarrow> int \<Rightarrow> int) \<Rightarrow> int \<Rightarrow> nat \<Rightarrow> nat
     \<Rightarrow> 'm associative_cache \<Rightarrow> error + (bool \<times> 'm associative_cache)" where
  "expand_loop get_free_pages hash1_locked invalid_off trigger_cell sz t =
     (case get_cell t trigger_cell of
        None \<Rightarrow> Inl NullPointer
      | Some trigger \<Rightarrow>
          if \<not> overflow trigger then Inr (True, t\<lparr>table_expanding := False\<rparr>)
          else
            (case expand_turn get_free_pages hash1_locked invalid_off sz t of
               TurnError e \<Rightarrow> Inl e
             | TurnOutOfMemory t' \<Rightarrow> Inr (False, t')
             | TurnBreak t' \<Rightarrow> Inr (True, t'\<lparr>table_expanding := False\<rparr>)
             | TurnContinue t' \<Rightarrow>
                 expand_loop get_free_pages hash1_locked invalid_off trigger_cell sz t'))"
  by pat_completeness auto

termination expand_loop
  apply (relation "measure (\<lambda>(alloc, h1, inv0, trig, sz, t).
           length (cells_table t) * init_ncells t - (split t + sz))")
  apply simp
  subgoal for alloc h1 inv0 trig sz t trigger t'
    using expand_turn_Continue(1,3,4,5) [of alloc h1 inv0 sz t t']
    by simp
  done


text \<open>The search for the array that holds the trigger bucket, which ends at the first
  \<^verbatim>\<open>NULL\<close> entry or at the array found and whose result \<^verbatim>\<open>assert(cells)\<close> checks.\<close>

fun find_cells ::
  "hash_cell list option list \<Rightarrow> nat \<Rightarrow> nat \<Rightarrow> nat \<Rightarrow> hash_cell list option
     \<Rightarrow> hash_cell list option" where
  "find_cells [] init trigger_cell i cells = cells"
| "find_cells (x # xs) init trigger_cell i cells =
     (case x of
        None \<Rightarrow> None
      | Some cs \<Rightarrow>
          if i * init \<le> trigger_cell \<and> trigger_cell < i * init + init then Some cs
          else find_cells xs init trigger_cell (i + 1) (Some cs))"

definition expand ::
  "('m \<Rightarrow> bool \<times> 'm) \<Rightarrow> ('m associative_cache \<Rightarrow> int \<Rightarrow> int) \<Rightarrow> int \<Rightarrow> nat
     \<Rightarrow> 'm associative_cache \<Rightarrow> error + (bool \<times> 'm associative_cache)" where
  "expand get_free_pages hash1_locked invalid_off trigger_cell t =
     (if table_expanding t then Inr (False, t)
      else
        (let t0 = t\<lparr>table_expanding := True\<rparr>
         in case find_cells (cells_table t0) (init_ncells t0) trigger_cell 0 None of
              None \<Rightarrow> Inl AssertionFailed
            | Some cells \<Rightarrow>
                expand_loop get_free_pages hash1_locked invalid_off trigger_cell
                  (2 ^ level t0 * init_ncells t0) t0))"

text \<open>
  The constructor \<^verbatim>\<open>associative_cache::associative_cache(cache_size, expandable)\<close>.
  \<open>m\<close> is the state of the new memory manager and \<open>max_size\<close> its
  \<^verbatim>\<open>get_max_size()\<close>. The sizes are \<^verbatim>\<open>long\<close>, but \<^verbatim>\<open>npages\<close>, \<^verbatim>\<open>max_npages\<close>,
  \<^verbatim>\<open>max_ncells\<close> and the counters are \<^verbatim>\<open>int\<close>: \<open>to_int32\<close> is the narrowing of a
  \<^verbatim>\<open>long\<close> to a 32-bit \<^verbatim>\<open>int\<close> (the value modulo \<open>2^32\<close> in two's complement) and
  \<open>c_div\<close> the division of C, which rounds towards zero. \<^verbatim>\<open>init_ncells\<close>, declared
  in the missing header, is printed with \<^verbatim>\<open>%d\<close> and compared with \<^verbatim>\<open>int\<close> counters: it
  is taken to be an \<^verbatim>\<open>int\<close>. A negative \<^verbatim>\<open>init_ncells\<close> fails in
  \<^verbatim>\<open>new hash_cell[init_ncells]\<close>, and \<^verbatim>\<open>init_ncells = 0\<close> in
  \<^verbatim>\<open>max_ncells / init_ncells\<close>.
\<close>

definition default_init_cache_size :: int where
  "default_init_cache_size = 128 * 1024 * 1024"

definition to_int32 :: "int \<Rightarrow> int" where
  "to_int32 x = (x + 2147483648) mod 4294967296 - 2147483648"

definition c_div :: "int \<Rightarrow> int \<Rightarrow> int" where
  "c_div a b = (if (a < 0) = (b < 0) then \<bar>a\<bar> div \<bar>b\<bar> else - (\<bar>a\<bar> div \<bar>b\<bar>))"

definition associative_cache_init ::
  "('m \<Rightarrow> bool \<times> 'm) \<Rightarrow> int \<Rightarrow> 'm \<Rightarrow> int \<Rightarrow> int \<Rightarrow> bool \<Rightarrow> error + 'm associative_cache" where
  "associative_cache_init get_free_pages invalid_off m max_size cache_size expandable =
     (let init_cache_size =
            (if default_init_cache_size > cache_size \<or> \<not> expandable then cache_size
             else default_init_cache_size);
          npages = to_int32 (c_div init_cache_size PAGE_SIZE)
      in if \<not> init_cache_size \<ge> int CELL_SIZE * PAGE_SIZE then Inl AssertionFailed
         else
           (let init = c_div npages (int CELL_SIZE);
                max_npages = to_int32 (c_div max_size PAGE_SIZE)
            in if init < 0 then Inl BadAlloc
               else
                 (case new_cells get_free_pages invalid_off 0 m (nat init) of
                    (None, m') \<Rightarrow> Inl (Exit 1)
                  | (Some cells, m') \<Rightarrow>
                      (let max_ncells = c_div max_npages (int CELL_SIZE)
                       in if init = 0 then Inl DivisionByZero
                          else Inr \<lparr>level = 0, split = 0, init_ncells = nat init, ncells = 1,
                                 cells_table =
                                   Some cells # replicate (nat (c_div max_ncells init - 1)) None,
                                 table_expanding = False, manager = m'\<rparr>))))"

text \<open>The buckets of round \<open>level\<close> that are addressed, \<open>2 ^ level * init_ncells + split\<close>,
  all lie in arrays that are in the vector.\<close>

definition lh_inv :: "'m associative_cache \<Rightarrow> bool" where
  "lh_inv t = (2 ^ level t * init_ncells t + split t \<le> ncells t * init_ncells t)"

lemma new_arrays_length:
  "new_arrays alloc inv0 init orig m k = (table, False, m') \<Longrightarrow> length table = k"
  by (induction k arbitrary: table m') (auto split: prod.splits bool.splits option.splits)

lemma grow_table_ncells:
  assumes "grow_table alloc inv0 ci t = Inr (False, t1)"
  shows "ci < ncells t1"
proof (cases "ncells t \<le> ci")
  case True
  with assms obtain table m' where
    n: "new_arrays alloc inv0 (init_ncells t) (ncells t) (manager t) (ci + 1 - ncells t)
          = (table, False, m')"
    and t1: "ncells t1 = ncells t + length table"
    by (auto simp: grow_table_def Let_def split: prod.splits sum.splits)
  from new_arrays_length [OF n] t1 True show ?thesis by simp
next
  case False
  with assms show ?thesis by (simp add: grow_table_def Let_def)
qed

lemma div_bound: "0 < (b::nat) \<Longrightarrow> a div b < n \<Longrightarrow> a < n * b"
proof -
  assume b: "0 < b" and "a div b < n"
  then have "Suc (a div b) * b \<le> n * b" by (intro mult_le_mono1) simp
  moreover have "a < Suc (a div b) * b" using b by (simp add: dividend_less_div_times)
  ultimately show ?thesis by linarith
qed

lemma expand_turn_grown:
  assumes "expand_turn alloc h1 inv0 sz t = TurnContinue t' \<or>
           expand_turn alloc h1 inv0 sz t = TurnBreak t'"
  shows "split t + sz < ncells t' * init_ncells t'"
proof -
  from assms obtain t1 where
    g: "grow_table alloc inv0 ((split t + sz) div init_ncells t) t = Inr (False, t1)"
    and i: "init_ncells t \<noteq> 0"
    and n: "ncells t' = ncells t1" "init_ncells t' = init_ncells t1"
    by (auto simp: expand_turn_def Let_def
        split: if_splits sum.splits prod.splits bool.splits option.splits)
  from grow_table_ncells [OF g] i have "split t + sz < ncells t1 * init_ncells t"
    by (intro div_bound) simp_all
  with grow_table_fields(3) [OF g] n show ?thesis by simp
qed

lemma expand_turn_Break:
  assumes "expand_turn alloc h1 inv0 sz t = TurnBreak t'"
  shows "split t' = 0" "level t' = level t + 1" "init_ncells t' = init_ncells t"
    "split t + 1 = sz" "table_expanding t' = table_expanding t"
proof -
  from assms obtain t1 cell ec cell' ec' where
    g: "grow_table alloc inv0 ((split t + sz) div init_ncells t) t = Inr (False, t1)"
    and t': "t' = (put_cell (split t1 + sz) ec' (put_cell (split t1) cell' t1))
                    \<lparr>split := split t1 + 1, level := level t1 + 1, split := 0\<rparr>"
    and e: "split t1 + 1 = sz"
    by (auto simp: expand_turn_def Let_def
        split: if_splits sum.splits prod.splits bool.splits option.splits)
  note f = grow_table_fields [OF g]
  show "split t' = 0" "level t' = level t + 1" "init_ncells t' = init_ncells t"
    "table_expanding t' = table_expanding t"
    using f by (simp_all add: t')
  from e f show "split t + 1 = sz" by simp
qed

lemma expand_turn_OutOfMemory:
  assumes "expand_turn alloc h1 inv0 sz t = TurnOutOfMemory t'"
  shows "split t' = split t" "level t' = level t" "init_ncells t' = init_ncells t"
    "ncells t \<le> ncells t'" "table_expanding t' = table_expanding t"
proof -
  from assms have
    g: "grow_table alloc inv0 ((split t + sz) div init_ncells t) t = Inr (True, t')"
    by (auto simp: expand_turn_def Let_def
        split: if_splits sum.splits prod.splits bool.splits option.splits)
  note f = grow_table_fields [OF g]
  then show "split t' = split t" "level t' = level t" "init_ncells t' = init_ncells t"
    "ncells t \<le> ncells t'" "table_expanding t' = table_expanding t"
    by simp_all
qed


declare expand_loop.simps [simp del]

lemma get_cell_table_expanding [simp]:
  "get_cell (t\<lparr>table_expanding := b\<rparr>) i = get_cell t i"
  by (simp add: get_cell_def Let_def)

lemma lh_inv_table_expanding [simp]: "lh_inv (t\<lparr>table_expanding := b\<rparr>) = lh_inv t"
  by (simp add: lh_inv_def)

definition expand_post ::
  "nat \<Rightarrow> 'm associative_cache \<Rightarrow> bool \<Rightarrow> 'm associative_cache \<Rightarrow> bool" where
  "expand_post trig t b t' =
     (init_ncells t' = init_ncells t \<and>
      (if level t' = level t then split t \<le> split t'
       else level t' = level t + 1 \<and> split t' = 0) \<and>
      (if b then (case get_cell t' trig of None \<Rightarrow> False | Some c \<Rightarrow> \<not> overflow c) \<or>
                 (level t' = level t + 1 \<and> split t' = 0)
       else table_expanding t' = table_expanding t))"

lemma expand_loop_post:
  assumes "expand_loop alloc h1 inv0 trig sz t = Inr (b, t')"
  shows "expand_post trig t b t'"
  using assms
proof (induction alloc h1 inv0 trig sz t rule: expand_loop.induct)
  case (1 alloc h1 inv0 trig sz t)
  from "1.prems"(1) obtain trigger where tr: "get_cell t trig = Some trigger"
    by (auto simp: expand_loop.simps [of alloc h1 inv0 trig sz t] split: option.splits)
  show ?case
  proof (cases "overflow trigger")
    case False
    with "1.prems"(1) tr have "b" "t' = t\<lparr>table_expanding := False\<rparr>"
      by (auto simp: expand_loop.simps [of alloc h1 inv0 trig sz t])
    then show ?thesis using tr False by (simp add: expand_post_def)
  next
    case True
    show ?thesis
    proof (cases "expand_turn alloc h1 inv0 sz t")
      case (TurnError e)
      with "1.prems"(1) tr True show ?thesis
        by (simp add: expand_loop.simps [of alloc h1 inv0 trig sz t])
    next
      case (TurnOutOfMemory t1)
      with "1.prems"(1) tr True have r: "\<not> b" "t' = t1"
        by (auto simp: expand_loop.simps [of alloc h1 inv0 trig sz t])
      note f = expand_turn_OutOfMemory [OF TurnOutOfMemory]
      show ?thesis using r f by (simp add: expand_post_def)
    next
      case (TurnBreak t1)
      with "1.prems"(1) tr True have r: "b" "t' = t1\<lparr>table_expanding := False\<rparr>"
        by (auto simp: expand_loop.simps [of alloc h1 inv0 trig sz t])
      note f = expand_turn_Break [OF TurnBreak]
      show ?thesis using r f by (simp add: expand_post_def)
    next
      case (TurnContinue t1)
      with "1.prems"(1) tr True
      have l: "expand_loop alloc h1 inv0 trig sz t1 = Inr (b, t')"
        by (simp add: expand_loop.simps [of alloc h1 inv0 trig sz t])
      note f = expand_turn_Continue [OF TurnContinue]
      from "1.IH" [OF tr _ TurnContinue l] True
      have "expand_post trig t1 b t'" by simp
      then show ?thesis using f by (auto simp: expand_post_def split: if_splits)
    qed
  qed
qed

lemma expand_loop_lh_inv:
  assumes "expand_loop alloc h1 inv0 trig sz t = Inr (b, t')"
    and "sz = 2 ^ level t * init_ncells t" and "lh_inv t"
  shows "lh_inv t'"
  using assms
proof (induction alloc h1 inv0 trig sz t rule: expand_loop.induct)
  case (1 alloc h1 inv0 trig sz t)
  from "1.prems"(1) obtain trigger where tr: "get_cell t trig = Some trigger"
    by (auto simp: expand_loop.simps [of alloc h1 inv0 trig sz t] split: option.splits)
  show ?case
  proof (cases "overflow trigger")
    case False
    with "1.prems"(1) tr have "t' = t\<lparr>table_expanding := False\<rparr>"
      by (auto simp: expand_loop.simps [of alloc h1 inv0 trig sz t])
    then show ?thesis using "1.prems"(3) by simp
  next
    case True
    show ?thesis
    proof (cases "expand_turn alloc h1 inv0 sz t")
      case (TurnError e)
      with "1.prems"(1) tr True show ?thesis
        by (simp add: expand_loop.simps [of alloc h1 inv0 trig sz t])
    next
      case (TurnOutOfMemory t1)
      with "1.prems"(1) tr True have r: "t' = t1"
        by (auto simp: expand_loop.simps [of alloc h1 inv0 trig sz t])
      note f = expand_turn_OutOfMemory [OF TurnOutOfMemory]
      from f(4) have "ncells t * init_ncells t \<le> ncells t1 * init_ncells t"
        by (rule mult_le_mono1)
      moreover from "1.prems"(3)
      have "2 ^ level t * init_ncells t + split t \<le> ncells t * init_ncells t"
        by (simp add: lh_inv_def)
      ultimately have "2 ^ level t * init_ncells t + split t \<le> ncells t1 * init_ncells t"
        by (rule le_trans [rotated])
      with f have "lh_inv t1" by (simp add: lh_inv_def)
      then show ?thesis using r by simp
    next
      case (TurnBreak t1)
      with "1.prems"(1) tr True have r: "t' = t1\<lparr>table_expanding := False\<rparr>"
        by (auto simp: expand_loop.simps [of alloc h1 inv0 trig sz t])
      note f = expand_turn_Break [OF TurnBreak]
      from expand_turn_grown [of alloc h1 inv0 sz t t1] TurnBreak
      have g: "split t + sz < ncells t1 * init_ncells t1" by simp
      have "2 ^ level t1 * init_ncells t1 = sz + sz"
        unfolding f(2,3) "1.prems"(2) by simp
      moreover have "sz + sz \<le> ncells t1 * init_ncells t1"
        using g f(4) by linarith
      ultimately have "lh_inv t1"
        using f(1) by (simp add: lh_inv_def)
      then show ?thesis using r by simp
    next
      case (TurnContinue t1)
      with "1.prems"(1) tr True
      have l: "expand_loop alloc h1 inv0 trig sz t1 = Inr (b, t')"
        by (simp add: expand_loop.simps [of alloc h1 inv0 trig sz t])
      note f = expand_turn_Continue [OF TurnContinue]
      from expand_turn_grown [of alloc h1 inv0 sz t t1] TurnContinue
      have g: "split t + sz < ncells t1 * init_ncells t1" by simp
      have i1: "lh_inv t1"
        using f g "1.prems"(2) by (simp add: lh_inv_def)
      have s1: "sz = 2 ^ level t1 * init_ncells t1"
        using f "1.prems"(2) by simp
      from "1.IH" [OF tr _ TurnContinue l s1 i1] True
      show ?thesis by simp
    qed
  qed
qed

lemma expand_cases:
  assumes "expand alloc h1 inv0 trig t = Inr (b, t')"
  shows "(table_expanding t \<and> \<not> b \<and> t' = t) \<or>
         (\<not> table_expanding t \<and>
          expand_loop alloc h1 inv0 trig (2 ^ level t * init_ncells t)
            (t\<lparr>table_expanding := True\<rparr>) = Inr (b, t'))"
proof (cases "table_expanding t")
  case True
  with assms have "\<not> b \<and> t' = t" by (simp add: expand_def)
  with True show ?thesis by simp
next
  case False
  with assms have
    "expand_loop alloc h1 inv0 trig (2 ^ level t * init_ncells t) (t\<lparr>table_expanding := True\<rparr>)
       = Inr (b, t')"
    by (auto simp: expand_def Let_def split: option.splits)
  with False show ?thesis by simp
qed

lemma expand_lh_inv:
  assumes "expand alloc h1 inv0 trig t = Inr (b, t')" and "lh_inv t"
  shows "lh_inv t'"
proof -
  from expand_cases [OF assms(1)] show ?thesis
  proof (elim disjE conjE)
    assume "t' = t"
    with assms(2) show ?thesis by simp
  next
    assume "expand_loop alloc h1 inv0 trig (2 ^ level t * init_ncells t)
              (t\<lparr>table_expanding := True\<rparr>) = Inr (b, t')"
    from expand_loop_lh_inv [OF this] assms(2) show ?thesis by simp
  qed
qed

lemma expand_post:
  assumes "expand alloc h1 inv0 trig t = Inr (b, t')"
  shows "(table_expanding t \<and> \<not> b \<and> t' = t) \<or>
         (\<not> table_expanding t \<and> expand_post trig (t\<lparr>table_expanding := True\<rparr>) b t')"
proof -
  from expand_cases [OF assms] show ?thesis
  proof (elim disjE conjE)
    assume "table_expanding t" "\<not> b" "t' = t"
    then show ?thesis by simp
  next
    assume "\<not> table_expanding t"
      and "expand_loop alloc h1 inv0 trig (2 ^ level t * init_ncells t)
              (t\<lparr>table_expanding := True\<rparr>) = Inr (b, t')"
    from this(1) expand_loop_post [OF this(2)] show ?thesis by simp
  qed
qed

lemma expand_monotone:
  assumes "expand alloc h1 inv0 trig t = Inr (b, t')"
  shows "init_ncells t' = init_ncells t \<and>
         (if level t' = level t then split t \<le> split t'
          else level t' = level t + 1 \<and> split t' = 0)"
  using expand_post [OF assms] by (auto simp: expand_post_def)

subsection \<open>Example tables\<close>

text \<open>A memory manager that is a count of free pages, an example of \<open>hash1_locked\<close> (the
  page number modulo the doubled number of buckets), and the setting of the flag
  \<^verbatim>\<open>OVERFLOW\<close> by \<^verbatim>\<open>get_empty_page\<close>.\<close>

definition page_reserve :: "nat \<Rightarrow> bool \<times> nat" where
  "page_reserve m = (if CELL_SIZE \<le> m then (True, m - CELL_SIZE) else (False, m))"

definition mod_hash1 :: "'m associative_cache \<Rightarrow> int \<Rightarrow> int" where
  "mod_hash1 t off = (off div PAGE_SIZE) mod (2 ^ (level t + 1) * int (init_ncells t))"

definition set_overflow :: "nat \<Rightarrow> 'm associative_cache \<Rightarrow> 'm associative_cache" where
  "set_overflow i t = (case get_cell t i of None \<Rightarrow> t | Some c \<Rightarrow> put_cell i (c\<lparr>overflow := True\<rparr>) t)"

text \<open>The table the constructor builds for a cache of 32 pages that may grow to 128,
  from a manager with \<open>reserve\<close> free pages.\<close>

definition small_table :: "nat \<Rightarrow> nat associative_cache" where
  "small_table reserve =
     projr (associative_cache_init page_reserve (- 4096) reserve 524288 131072 True)"

definition new_cell :: "int \<Rightarrow> hash_cell" where
  "new_cell h = \<lparr>hash = h, buf = (\<lambda>i. fresh_page (- 4096)), clock_head = 0,
                 overflow = False, in_queue = False\<rparr>"

lemma new_hash_cell_reserve:
  "new_hash_cell page_reserve (- 4096) m h =
     (if 16 \<le> m then (Some (new_cell h), m - 16) else (None, m))"
  by (simp add: new_hash_cell_def page_reserve_def CELL_SIZE_def new_cell_def)

lemma new_cells_2:
  "new_cells page_reserve (- 4096) base m 2 =
     (if 32 \<le> m then (Some [new_cell (int base), new_cell (int base + 1)], m - 32)
      else if 16 \<le> m then (None, m - 16) else (None, m))"
  by (auto simp: numeral_2_eq_2 new_hash_cell_reserve add.commute)

lemma small_table_eq:
  "32 \<le> reserve \<Longrightarrow> small_table reserve =
     \<lparr>level = 0, split = 0, init_ncells = 2, ncells = 1,
       cells_table = [Some [new_cell 0, new_cell 1], None, None, None],
       table_expanding = False, manager = reserve - 32\<rparr>"
  by (simp add: small_table_def associative_cache_init_def default_init_cache_size_def
     to_int32_def c_div_def PAGE_SIZE_def CELL_SIZE_def Let_def new_cells_2 numeral_3_eq_3)


text \<open>That table built from a manager with no page to spare, after bucket 0 has
  overflowed.\<close>

definition oom_table :: "nat associative_cache" where
  "oom_table = set_overflow 0 (small_table 32)"

lemma oom_table_eq:
  "oom_table =
     \<lparr>level = 0, split = 0, init_ncells = 2, ncells = 1,
       cells_table = [Some [(new_cell 0)\<lparr>overflow := True\<rparr>, new_cell 1], None, None, None],
       table_expanding = False, manager = 0\<rparr>"
  by (simp add: oom_table_def small_table_eq set_overflow_def get_cell_def put_cell_def Let_def)

lemma new_arrays_oom:
  "new_arrays page_reserve (- 4096) 2 1 0 1 = ([], True, 0)"
  by (simp add: new_cells_2)

lemma grow_oom:
  "grow_table page_reserve (- 4096) (Suc 0) (oom_table\<lparr>table_expanding := True\<rparr>)
     = Inr (True, oom_table\<lparr>table_expanding := True\<rparr>)"
  by (simp add: grow_table_def oom_table_eq new_cells_2)

lemma turn_oom:
  "expand_turn page_reserve mod_hash1 (- 4096) 2 (oom_table\<lparr>table_expanding := True\<rparr>)
     = TurnOutOfMemory (oom_table\<lparr>table_expanding := True\<rparr>)"
proof -
  have "init_ncells (oom_table\<lparr>table_expanding := True\<rparr>) = 2"
    "split (oom_table\<lparr>table_expanding := True\<rparr>) = 0"
    by (simp_all add: oom_table_eq)
  then show ?thesis
    by (simp add: expand_turn_def grow_oom)
qed

lemma expand_oom:
  "expand page_reserve mod_hash1 (- 4096) 0 oom_table
     = Inr (False, oom_table\<lparr>table_expanding := True\<rparr>)"
proof -
  have f: "\<not> table_expanding oom_table" "level oom_table = 0" "init_ncells oom_table = 2"
    "find_cells (cells_table oom_table) 2 0 0 None \<noteq> None"
    "map_option overflow (get_cell (oom_table\<lparr>table_expanding := True\<rparr>) 0) = Some True"
    by (simp_all add: oom_table_eq get_cell_def)
  then obtain c where c: "get_cell (oom_table\<lparr>table_expanding := True\<rparr>) 0 = Some c" "overflow c"
    by auto
  have "expand_loop page_reserve mod_hash1 (- 4096) 0 2 (oom_table\<lparr>table_expanding := True\<rparr>)
          = Inr (False, oom_table\<lparr>table_expanding := True\<rparr>)"
    by (subst expand_loop.simps) (simp add: c turn_oom del: get_cell_table_expanding)
  then show ?thesis using f(1-4)
    by (auto simp: expand_def Let_def)
qed






text \<open>The table the constructor builds from a manager with 64 free pages, after bucket 0
  has overflowed: \<^verbatim>\<open>expand\<close> adds an array, splits bucket 0 into bucket 2 and stops,
  since the split has cleared the flag of bucket 0.\<close>

definition overflowed_table :: "nat associative_cache" where
  "overflowed_table = set_overflow 0 (small_table 64)"

lemma overflowed_table_eq:
  "overflowed_table =
     \<lparr>level = 0, split = 0, init_ncells = 2, ncells = 1,
       cells_table = [Some [(new_cell 0)\<lparr>overflow := True\<rparr>, new_cell 1], None, None, None],
       table_expanding = False, manager = 32\<rparr>"
  by (simp add: overflowed_table_def small_table_eq set_overflow_def get_cell_def put_cell_def
      Let_def)

lemma overflowed_table_put:
  "overflowed_table = put_cell 0 ((new_cell 0)\<lparr>overflow := True\<rparr>) (small_table 64)"
  by (simp add: overflowed_table_def small_table_eq set_overflow_def get_cell_def)

lemma rehash_overflow:
  "rehash h1 inv0 this expanded = Inr (x, y) \<Longrightarrow> \<not> overflow x"
  by (auto simp: rehash_def split: sum.splits prod.splits)

lemma rehash_first:
  "\<not> isl (rehash (mod_hash1 t) (- 4096) ((new_cell 0)\<lparr>overflow := True\<rparr>) (new_cell 2))"
  if "level t = 0" "init_ncells t = 2" for t :: "nat associative_cache"
  using that
  by (simp add: rehash_def rehash_turn_def CELL_SIZE_def eval_nat_numeral new_cell_def
      mod_hash1_def PAGE_SIZE_def fresh_page_def initialized_def set_hits_def Let_def)

lemma grow_first:
  "grow_table page_reserve (- 4096) (Suc 0) (overflowed_table\<lparr>table_expanding := True\<rparr>)
     = Inr (False,
         \<lparr>level = 0, split = 0, init_ncells = 2, ncells = 2,
           cells_table = [Some [(new_cell 0)\<lparr>overflow := True\<rparr>, new_cell 1],
                          Some [new_cell 2, new_cell 3], None, None],
           table_expanding = True, manager = 0\<rparr>)"
  by (simp add: grow_table_def overflowed_table_eq new_cells_2)

lemma turn_first:
  "\<exists>t'. expand_turn page_reserve mod_hash1 (- 4096) 2 (overflowed_table\<lparr>table_expanding := True\<rparr>)
     = TurnContinue t' \<and> map_option overflow (get_cell t' 0) = Some False \<and>
     level t' = 0 \<and> split t' = 1 \<and> init_ncells t' = 2 \<and> ncells t' = 2"
proof -
  let ?t = "overflowed_table\<lparr>table_expanding := True\<rparr>"
  let ?t1 = "\<lparr>level = 0, split = 0, init_ncells = 2, ncells = 2,
           cells_table = [Some [(new_cell 0)\<lparr>overflow := True\<rparr>, new_cell 1],
                          Some [new_cell 2, new_cell 3], None, None],
           table_expanding = True, manager = 0::nat\<rparr>"
  obtain x y where r: "rehash (mod_hash1 ?t1) (- 4096) ((new_cell 0)\<lparr>overflow := True\<rparr>) (new_cell 2)
                         = Inr (x, y)"
    using rehash_first [of ?t1]
    by (cases "rehash (mod_hash1 ?t1) (- 4096) ((new_cell 0)\<lparr>overflow := True\<rparr>) (new_cell 2)") auto
  note o = rehash_overflow [OF r]
  have c: "get_cell ?t1 0 = Some ((new_cell 0)\<lparr>overflow := True\<rparr>)"
    "get_cell ?t1 (Suc (Suc 0)) = Some (new_cell 2)"
    by (simp_all add: get_cell_def)
  have f: "init_ncells ?t = 2" "split ?t = 0"
    by (simp_all add: overflowed_table_eq)
  have "expand_turn page_reserve mod_hash1 (- 4096) 2 ?t =
          TurnContinue ((put_cell (Suc (Suc 0)) y (put_cell 0 x ?t1))\<lparr>split := 1\<rparr>)"
    by (simp add: expand_turn_def f grow_first c r Let_def del: get_cell_table_expanding)
  moreover have "map_option overflow (get_cell ((put_cell (Suc (Suc 0)) y (put_cell 0 x ?t1))\<lparr>split := 1\<rparr>) 0)
                   = Some False"
    using o by (simp add: get_cell_def put_cell_def Let_def)
  ultimately show ?thesis by auto
qed

lemma expand_first:
  "\<exists>t'. expand page_reserve mod_hash1 (- 4096) 0 overflowed_table = Inr (True, t') \<and>
     level t' = 0 \<and> split t' = 1 \<and> init_ncells t' = 2 \<and> ncells t' = 2"
proof -
  let ?t = "overflowed_table\<lparr>table_expanding := True\<rparr>"
  from turn_first obtain t' where
    t: "expand_turn page_reserve mod_hash1 (- 4096) 2 ?t = TurnContinue t'"
    and o: "map_option overflow (get_cell t' 0) = Some False"
    and v: "level t' = 0" "split t' = 1" "init_ncells t' = 2" "ncells t' = 2" by blast
  have f: "\<not> table_expanding overflowed_table" "level overflowed_table = 0"
    "init_ncells overflowed_table = 2"
    "find_cells (cells_table overflowed_table) 2 0 0 None \<noteq> None"
    "map_option overflow (get_cell ?t 0) = Some True"
    by (simp_all add: overflowed_table_eq get_cell_def)
  then obtain c where c: "get_cell ?t 0 = Some c" "overflow c"
    by auto
  from o obtain c' where c': "get_cell t' 0 = Some c'" "\<not> overflow c'" by auto
  have "expand_loop page_reserve mod_hash1 (- 4096) 0 2 t' = Inr (True, t'\<lparr>table_expanding := False\<rparr>)"
    by (subst expand_loop.simps) (simp add: c')
  then have "expand_loop page_reserve mod_hash1 (- 4096) 0 2 ?t
          = Inr (True, t'\<lparr>table_expanding := False\<rparr>)"
    by (subst expand_loop.simps) (simp add: c t del: get_cell_table_expanding)
  then have "expand page_reserve mod_hash1 (- 4096) 0 overflowed_table
               = Inr (True, t'\<lparr>table_expanding := False\<rparr>)"
    using f(1-4) by (auto simp: expand_def Let_def)
  then show ?thesis using v by simp
qed


section \<open>Properties of the expansion\<close>

text \<open>The states of the directory: what the constructor returns, what \<^verbatim>\<open>expand\<close>
  returns from such a state, and in between any change of a bucket by a lookup.\<close>

inductive reachable ::
  "('m \<Rightarrow> bool \<times> 'm) \<Rightarrow> ('m associative_cache \<Rightarrow> int \<Rightarrow> int) \<Rightarrow> int
     \<Rightarrow> 'm associative_cache \<Rightarrow> bool"
  for get_free_pages hash1_locked invalid_off where
    constructed:
      "associative_cache_init get_free_pages invalid_off m max_size cache_size expandable = Inr t
       \<Longrightarrow> reachable get_free_pages hash1_locked invalid_off t"
  | expanded:
      "reachable get_free_pages hash1_locked invalid_off t \<Longrightarrow>
       expand get_free_pages hash1_locked invalid_off trigger_cell t = Inr (b, t') \<Longrightarrow>
       reachable get_free_pages hash1_locked invalid_off t'"
  | looked_up:
      "reachable get_free_pages hash1_locked invalid_off t \<Longrightarrow>
       reachable get_free_pages hash1_locked invalid_off (put_cell i c t)"

lemma init_lh_inv:
  "associative_cache_init alloc inv0 m max_size cache_size expandable = Inr t \<Longrightarrow>
   level t = 0 \<and> split t = 0 \<and> ncells t = 1"
  by (auto simp: associative_cache_init_def Let_def split: if_splits prod.splits option.splits)

lemma reachable_lh_inv: "reachable alloc h1 inv0 t \<Longrightarrow> lh_inv t"
proof (induction rule: reachable.induct)
  case (constructed m max_size cache_size expandable t)
  from init_lh_inv [OF this] show ?case by (simp add: lh_inv_def)
next
  case (expanded t trigger_cell b t')
  from expand_lh_inv [OF expanded(2) expanded(3)] show ?case .
next
  case (looked_up t i c)
  then show ?case by (simp add: lh_inv_def)
qed

text \<open>
  The live buckets are the buckets of the arrays that are in the vector. \<open>table_ok\<close>
  is the shape the constructor and \<^verbatim>\<open>expand\<close> keep: the first \<open>ncells\<close> entries of the
  vector are arrays of \<open>init_ncells\<close> buckets and the others are \<^verbatim>\<open>NULL\<close>, so that the
  counter \<open>ncells\<close> of the sources, which counts arrays, stands for
  \<open>ncells * init_ncells\<close> live buckets.
\<close>

definition live_buckets :: "'m associative_cache \<Rightarrow> nat" where
  "live_buckets t =
     sum_list (map (\<lambda>x. case x of None \<Rightarrow> 0 | Some cells \<Rightarrow> length cells) (cells_table t))"

definition table_ok :: "'m associative_cache \<Rightarrow> bool" where
  "table_ok t =
     (ncells t \<le> length (cells_table t) \<and>
      (\<forall>i<length (cells_table t).
         if i < ncells t
         then \<exists>cells. cells_table t ! i = Some cells \<and> length cells = init_ncells t
         else cells_table t ! i = None))"

lemma sum_arrays:
  "n \<le> length xs \<Longrightarrow>
   \<forall>i<length xs. if i < n then \<exists>cells. xs ! i = Some cells \<and> length cells = k else xs ! i = None
   \<Longrightarrow> sum_list (map (\<lambda>x. case x of None \<Rightarrow> 0 | Some cells \<Rightarrow> length cells) xs) = n * k"
proof (induction xs arbitrary: n)
  case Nil
  then show ?case by simp
next
  case (Cons x xs)
  show ?case
  proof (cases n)
    case 0
    with Cons.prems(2) have x: "x = None" by auto
    have "sum_list (map (\<lambda>x. case x of None \<Rightarrow> 0 | Some cells \<Rightarrow> length cells) xs) = 0 * k"
    proof (rule Cons.IH)
      show "0 \<le> length xs" by simp
      show "\<forall>i<length xs. if i < 0 then \<exists>cells. xs ! i = Some cells \<and> length cells = k
                            else xs ! i = None"
      proof (intro allI impI)
        fix i assume "i < length xs"
        then have "Suc i < length (x # xs)" by simp
        with Cons.prems(2) 0 have "(x # xs) ! Suc i = None" by (auto dest!: spec [of _ "Suc i"])
        then show "if i < 0 then \<exists>cells. xs ! i = Some cells \<and> length cells = k
                   else xs ! i = None" by simp
      qed
    qed
    with x 0 show ?thesis by simp
  next
    case (Suc m)
    with Cons.prems(2) obtain cells where x: "x = Some cells" "length cells = k"
      by (auto dest!: spec [of _ 0])
    have "sum_list (map (\<lambda>x. case x of None \<Rightarrow> 0 | Some cells \<Rightarrow> length cells) xs) = m * k"
    proof (rule Cons.IH)
      show "m \<le> length xs" using Cons.prems(1) Suc by simp
      show "\<forall>i<length xs. if i < m then \<exists>cells. xs ! i = Some cells \<and> length cells = k
                            else xs ! i = None"
      proof (intro allI impI)
        fix i assume "i < length xs"
        then have "Suc i < length (x # xs)" by simp
        with Cons.prems(2) Suc show "if i < m then \<exists>cells. xs ! i = Some cells \<and> length cells = k
                   else xs ! i = None" by (auto dest!: spec [of _ "Suc i"])
      qed
    qed
    with x Suc show ?thesis by simp
  qed
qed

lemma live_buckets_table_ok: "table_ok t \<Longrightarrow> live_buckets t = ncells t * init_ncells t"
  unfolding table_ok_def live_buckets_def by (intro sum_arrays) simp_all

lemma new_cells_length:
  "new_cells alloc inv0 base m n = (Some cells, m') \<Longrightarrow> length cells = n"
  by (induction n arbitrary: cells m') (auto split: prod.splits option.splits)

lemma new_arrays_lengths:
  "new_arrays alloc inv0 init orig m k = (table, b, m') \<Longrightarrow> \<forall>cells\<in>set table. length cells = init"
  by (induction k arbitrary: table b m')
     (auto split: prod.splits bool.splits option.splits dest: new_cells_length)

lemma install_arrays_nth:
  "install_arrays table i ct = Inr ct' \<Longrightarrow> i \<le> length ct \<Longrightarrow>
   length ct' = length ct \<and> i + length table \<le> length ct \<and>
   (\<forall>k<length ct. ct' ! k = (if i \<le> k \<and> k < i + length table then Some (table ! (k - i))
                              else ct ! k))"
proof (induction table i ct arbitrary: ct' rule: install_arrays.induct)
  case (1 i ct)
  then show ?case by auto
next
  case (2 cells table i ct)
  from "2.prems"(1) have l: "i < length ct"
    and r: "install_arrays table (i + 1) (ct[i := Some cells]) = Inr ct'"
    by (auto split: if_splits)
  from "2.IH" [OF l r] l
  have a: "length ct' = length ct" "i + 1 + length table \<le> length ct"
    and b: "\<forall>k<length ct. ct' ! k =
              (if i + 1 \<le> k \<and> k < i + 1 + length table then Some (table ! (k - (i + 1)))
               else ct[i := Some cells] ! k)"
    by simp_all
  have "ct' ! k = (if i \<le> k \<and> k < i + length (cells # table)
                   then Some ((cells # table) ! (k - i)) else ct ! k)"
    if k: "k < length ct" for k
  proof (cases "k = i")
    case True
    with b k l show ?thesis by simp
  next
    case False
    show ?thesis
    proof (cases "i < k \<and> k < i + 1 + length table")
      case True
      then obtain x where x: "k - i = Suc x" "k - (i + 1) = x"
        by (cases "k - i") auto
      from b k True have "ct' ! k = Some (table ! (k - (i + 1)))" by simp
      with True x show ?thesis by simp
    next
      case f: False
      with b k False have "ct' ! k = ct ! k" by auto
      with f False show ?thesis by auto
    qed
  qed
  with a show ?case by simp
qed

lemma table_ok_put_cell: "table_ok t \<Longrightarrow> table_ok (put_cell i c t)"
proof -
  assume a: "table_ok t"
  let ?ci = "i div init_ncells t"
  let ?ct = "(cells_table t)[?ci := map_option (\<lambda>cells. cells[i mod init_ncells t := c])
                                   (cells_table t ! ?ci)]"
  have "if k < ncells t then \<exists>cells. ?ct ! k = Some cells \<and> length cells = init_ncells t
        else ?ct ! k = None" if k: "k < length ?ct" for k
  proof -
    from k have k': "k < length (cells_table t)" by simp
    with a have o: "if k < ncells t
         then \<exists>cells. cells_table t ! k = Some cells \<and> length cells = init_ncells t
         else cells_table t ! k = None"
      by (simp add: table_ok_def)
    show ?thesis
    proof (cases "k = ?ci")
      case True
      with k' have "?ct ! k = map_option (\<lambda>cells. cells[i mod init_ncells t := c])
                                (cells_table t ! k)" by simp
      with o show ?thesis by (auto split: if_splits)
    next
      case False
      then have "?ct ! k = cells_table t ! k" by simp
      with o show ?thesis by simp
    qed
  qed
  moreover from a have "ncells t \<le> length ?ct" by (simp add: table_ok_def)
  ultimately show ?thesis
    unfolding table_ok_def put_cell_def Let_def by simp
qed

lemma table_ok_grow:
  assumes "grow_table alloc inv0 ci t = Inr (b, t1)" and "table_ok t"
  shows "table_ok t1"
proof (cases "ncells t \<le> ci")
  case False
  with assms show ?thesis by (simp add: grow_table_def Let_def)
next
  case True
  with assms(1) obtain table m' ct where
    n: "new_arrays alloc inv0 (init_ncells t) (ncells t) (manager t) (ci + 1 - ncells t)
          = (table, b, m')"
    and i: "install_arrays table (ncells t) (cells_table t) = Inr ct"
    and t1: "t1 = t\<lparr>cells_table := ct, ncells := ncells t + length table, manager := m'\<rparr>"
    by (auto simp: grow_table_def Let_def split: prod.splits sum.splits)
  from assms(2) have le: "ncells t \<le> length (cells_table t)" by (simp add: table_ok_def)
  note ia = install_arrays_nth [OF i le]
  note na = new_arrays_lengths [OF n]
  show ?thesis
    unfolding table_ok_def t1
  proof (intro conjI allI impI)
    show "ncells (t\<lparr>cells_table := ct, ncells := ncells t + length table, manager := m'\<rparr>)
            \<le> length (cells_table (t\<lparr>cells_table := ct, ncells := ncells t + length table, manager := m'\<rparr>))"
      using ia by simp
  next
    fix k
    assume "k < length (cells_table (t\<lparr>cells_table := ct, ncells := ncells t + length table, manager := m'\<rparr>))"
    then have k: "k < length (cells_table t)" using ia by simp
    with ia have e: "ct ! k = (if ncells t \<le> k \<and> k < ncells t + length table
                               then Some (table ! (k - ncells t)) else cells_table t ! k)"
      by simp
    from assms(2) k have o: "if k < ncells t
         then \<exists>cells. cells_table t ! k = Some cells \<and> length cells = init_ncells t
         else cells_table t ! k = None"
      by (simp add: table_ok_def)
    show "if k < ncells (t\<lparr>cells_table := ct, ncells := ncells t + length table, manager := m'\<rparr>)
          then \<exists>cells. cells_table (t\<lparr>cells_table := ct, ncells := ncells t + length table, manager := m'\<rparr>) ! k = Some cells \<and>
                 length cells = init_ncells (t\<lparr>cells_table := ct, ncells := ncells t + length table, manager := m'\<rparr>)
          else cells_table (t\<lparr>cells_table := ct, ncells := ncells t + length table, manager := m'\<rparr>) ! k = None"
    proof (cases "k < ncells t")
      case True
      with o e show ?thesis by simp
    next
      case False
      show ?thesis
      proof (cases "k < ncells t + length table")
        case True
        with False have "k - ncells t < length table" by simp
        then have "table ! (k - ncells t) \<in> set table" by simp
        with na have "length (table ! (k - ncells t)) = init_ncells t" by blast
        with True False e show ?thesis by simp
      next
        case b: False
        with False o e show ?thesis by simp
      qed
    qed
  qed
qed

lemma table_ok_fields:
  "table_ok (t\<lparr>split := s\<rparr>) = table_ok t" "table_ok (t\<lparr>level := l\<rparr>) = table_ok t"
  "table_ok (t\<lparr>table_expanding := e\<rparr>) = table_ok t"
  by (simp_all add: table_ok_def)

lemma table_ok_turn:
  assumes "table_ok t"
    and "expand_turn alloc h1 inv0 sz t = TurnContinue t' \<or>
         expand_turn alloc h1 inv0 sz t = TurnBreak t' \<or>
         expand_turn alloc h1 inv0 sz t = TurnOutOfMemory t'"
  shows "table_ok t'"
  using assms(2)
proof (elim disjE)
  assume "expand_turn alloc h1 inv0 sz t = TurnContinue t'"
  then obtain t1 cell' ec' where
    g: "grow_table alloc inv0 ((split t + sz) div init_ncells t) t = Inr (False, t1)"
    and t': "t' = (put_cell (split t1 + sz) ec' (put_cell (split t1) cell' t1))
                    \<lparr>split := split t1 + 1\<rparr>"
    by (auto simp: expand_turn_def Let_def
        split: if_splits sum.splits prod.splits bool.splits option.splits)
  from table_ok_grow [OF g assms(1)] show ?thesis
    unfolding t' by (simp add: table_ok_fields table_ok_put_cell)
next
  assume "expand_turn alloc h1 inv0 sz t = TurnBreak t'"
  then obtain t1 cell' ec' where
    g: "grow_table alloc inv0 ((split t + sz) div init_ncells t) t = Inr (False, t1)"
    and t': "t' = (put_cell (split t1 + sz) ec' (put_cell (split t1) cell' t1))
                    \<lparr>split := split t1 + 1, level := level t1 + 1, split := 0\<rparr>"
    by (auto simp: expand_turn_def Let_def
        split: if_splits sum.splits prod.splits bool.splits option.splits)
  from table_ok_grow [OF g assms(1)] show ?thesis
    unfolding t' by (simp add: table_ok_fields table_ok_put_cell)
next
  assume "expand_turn alloc h1 inv0 sz t = TurnOutOfMemory t'"
  then have
    g: "grow_table alloc inv0 ((split t + sz) div init_ncells t) t = Inr (True, t')"
    by (auto simp: expand_turn_def Let_def
        split: if_splits sum.splits prod.splits bool.splits option.splits)
  from table_ok_grow [OF g assms(1)] show ?thesis .
qed

lemma table_ok_loop:
  "expand_loop alloc h1 inv0 trig sz t = Inr (b, t') \<Longrightarrow> table_ok t \<Longrightarrow> table_ok t'"
proof (induction alloc h1 inv0 trig sz t rule: expand_loop.induct)
  case (1 alloc h1 inv0 trig sz t)
  from "1.prems"(1) obtain trigger where tr: "get_cell t trig = Some trigger"
    by (auto simp: expand_loop.simps [of alloc h1 inv0 trig sz t] split: option.splits)
  show ?case
  proof (cases "overflow trigger")
    case False
    with "1.prems"(1) tr have "t' = t\<lparr>table_expanding := False\<rparr>"
      by (auto simp: expand_loop.simps [of alloc h1 inv0 trig sz t])
    then show ?thesis using "1.prems"(2) by (simp add: table_ok_fields)
  next
    case True
    show ?thesis
    proof (cases "expand_turn alloc h1 inv0 sz t")
      case (TurnError e)
      with "1.prems"(1) tr True show ?thesis
        by (simp add: expand_loop.simps [of alloc h1 inv0 trig sz t])
    next
      case (TurnOutOfMemory t1)
      with "1.prems"(1) tr True have r: "t' = t1"
        by (auto simp: expand_loop.simps [of alloc h1 inv0 trig sz t])
      from table_ok_turn [OF "1.prems"(2), of alloc h1 inv0 sz t1] TurnOutOfMemory r
      show ?thesis by simp
    next
      case (TurnBreak t1)
      with "1.prems"(1) tr True have r: "t' = t1\<lparr>table_expanding := False\<rparr>"
        by (auto simp: expand_loop.simps [of alloc h1 inv0 trig sz t])
      from table_ok_turn [OF "1.prems"(2), of alloc h1 inv0 sz t1] TurnBreak r
      show ?thesis by (simp add: table_ok_fields)
    next
      case (TurnContinue t1)
      with "1.prems"(1) tr True
      have l: "expand_loop alloc h1 inv0 trig sz t1 = Inr (b, t')"
        by (simp add: expand_loop.simps [of alloc h1 inv0 trig sz t])
      from table_ok_turn [OF "1.prems"(2), of alloc h1 inv0 sz t1] TurnContinue
      have "table_ok t1" by simp
      from "1.IH" [OF tr _ TurnContinue l this] True show ?thesis by simp
    qed
  qed
qed

lemma table_ok_expand:
  assumes "expand alloc h1 inv0 trig t = Inr (b, t')" and "table_ok t"
  shows "table_ok t'"
proof -
  from expand_cases [OF assms(1)] show ?thesis
  proof (elim disjE conjE)
    assume "t' = t"
    with assms(2) show ?thesis by simp
  next
    assume "expand_loop alloc h1 inv0 trig (2 ^ level t * init_ncells t)
              (t\<lparr>table_expanding := True\<rparr>) = Inr (b, t')"
    from table_ok_loop [OF this] assms(2) show ?thesis by (simp add: table_ok_fields)
  qed
qed

lemma table_ok_init:
  "associative_cache_init alloc inv0 m max_size cache_size expandable = Inr t \<Longrightarrow> table_ok t"
  by (auto simp: associative_cache_init_def Let_def table_ok_def nth_Cons
      split: if_splits prod.splits option.splits nat.splits dest: new_cells_length)

lemma reachable_table_ok: "reachable alloc h1 inv0 t \<Longrightarrow> table_ok t"
proof (induction rule: reachable.induct)
  case (constructed m max_size cache_size expandable t)
  then show ?case by (rule table_ok_init)
next
  case (expanded t trigger_cell b t')
  from table_ok_expand [OF expanded(2) expanded(3)] show ?case .
next
  case (looked_up t i c)
  from looked_up.IH show ?case by (rule table_ok_put_cell)
qed

text \<open>
  C8. In every reachable state of the directory the live buckets cover the addressed
  ones: \<open>live_buckets \<ge> 2 ^ level * init_ncells + split\<close>, where the live buckets are
  \<open>ncells * init_ncells\<close>, the counter \<open>ncells\<close> of the sources counting arrays of
  \<open>init_ncells\<close> buckets. A lookup changes neither \<open>level\<close> nor \<open>split\<close>; a call of
  \<open>expand\<close> does not decrease \<open>level\<close>, and \<open>split\<close> becomes smaller only in a call that
  increments \<open>level\<close>, where it becomes 0.
\<close>

theorem linear_hashing_monotone:
  assumes "reachable get_free_pages hash1_locked invalid_off t"
  shows "2 ^ level t * init_ncells t + split t \<le> live_buckets t \<and>
         live_buckets t = ncells t * init_ncells t \<and>
         (\<forall>i c. level (put_cell i c t) = level t \<and> split (put_cell i c t) = split t) \<and>
         (\<forall>trigger_cell b t'.
            expand get_free_pages hash1_locked invalid_off trigger_cell t = Inr (b, t') \<longrightarrow>
              level t \<le> level t' \<and>
              (split t' < split t \<longrightarrow> level t' = level t + 1 \<and> split t' = 0))"
proof (intro conjI allI impI)
  from reachable_table_ok [OF assms]
  show l: "live_buckets t = ncells t * init_ncells t"
    by (rule live_buckets_table_ok)
  from reachable_lh_inv [OF assms]
  show "2 ^ level t * init_ncells t + split t \<le> live_buckets t"
    unfolding l by (simp add: lh_inv_def)
next
  fix trigger_cell b t'
  assume e: "expand get_free_pages hash1_locked invalid_off trigger_cell t = Inr (b, t')"
  from expand_monotone [OF e] show "level t \<le> level t'"
    by (auto split: if_splits)
  assume "split t' < split t"
  with expand_monotone [OF e] show "level t' = level t + 1" "split t' = 0"
    by (auto split: if_splits)
qed simp_all

lemma small_table_constructed:
  "associative_cache_init page_reserve (- 4096) 64 524288 131072 True = Inr (small_table 64)"
proof -
  have "\<not> isl (associative_cache_init page_reserve (- 4096) 64 524288 131072 True)"
    by (simp add: associative_cache_init_def default_init_cache_size_def
     to_int32_def c_div_def PAGE_SIZE_def CELL_SIZE_def Let_def new_cells_2 numeral_3_eq_3)
  then show ?thesis
    unfolding small_table_def by simp
qed

text \<open>The state after the constructor, a lookup that sets the overflow flag of bucket 0,
  and the call of \<open>expand\<close> that splits bucket 0: \<open>level = 0\<close>, \<open>split = 1\<close> and four
  live buckets.\<close>

theorem linear_hashing_monotone_witness:
  "\<not> isl (expand page_reserve mod_hash1 (- 4096) 0 overflowed_table) \<and>
   level (snd (projr (expand page_reserve mod_hash1 (- 4096) 0 overflowed_table))) = 0 \<and>
   split (snd (projr (expand page_reserve mod_hash1 (- 4096) 0 overflowed_table))) = 1 \<and>
   live_buckets (snd (projr (expand page_reserve mod_hash1 (- 4096) 0 overflowed_table))) = 4 \<and>
   2 ^ level (snd (projr (expand page_reserve mod_hash1 (- 4096) 0 overflowed_table))) *
     init_ncells (snd (projr (expand page_reserve mod_hash1 (- 4096) 0 overflowed_table))) +
     split (snd (projr (expand page_reserve mod_hash1 (- 4096) 0 overflowed_table)))
   \<le> live_buckets (snd (projr (expand page_reserve mod_hash1 (- 4096) 0 overflowed_table)))"
proof -
  from expand_first obtain t' where
    e: "expand page_reserve mod_hash1 (- 4096) 0 overflowed_table = Inr (True, t')"
    and v: "level t' = 0" "split t' = 1" "init_ncells t' = 2" "ncells t' = 2" by blast
  have "reachable page_reserve mod_hash1 (- 4096) (small_table 64)"
    using small_table_constructed by (rule reachable.constructed)
  then have "reachable page_reserve mod_hash1 (- 4096) overflowed_table"
    unfolding overflowed_table_put by (rule reachable.looked_up)
  then have "reachable page_reserve mod_hash1 (- 4096) t'"
    using e by (rule reachable.expanded)
  from linear_hashing_monotone [OF this] v e show ?thesis by simp
qed










text \<open>
  C3 does not hold of the code. A call of \<open>expand\<close> that starts with
  \<^verbatim>\<open>TABLE_EXPANDING\<close> clear and returns false (the return after a failed allocation)
  leaves the flag set, and from then on every call of \<open>expand\<close> returns false at once and
  changes nothing, whatever memory there is.
\<close>

theorem expand_out_of_memory_flag:
  assumes "\<not> table_expanding t"
    and "expand get_free_pages hash1_locked invalid_off trigger_cell t = Inr (False, t')"
  shows "table_expanding t' \<and>
         (\<forall>trig. expand get_free_pages hash1_locked invalid_off trig t' = Inr (False, t'))"
proof -
  from expand_post [OF assms(2)] assms(1) have "table_expanding t'"
    by (simp add: expand_post_def)
  then show ?thesis by (simp add: expand_def)
qed

theorem expand_out_of_memory_flag_witness:
  "expand page_reserve mod_hash1 (- 4096) 0 oom_table
     = Inr (False, oom_table\<lparr>table_expanding := True\<rparr>) \<and>
   table_expanding (oom_table\<lparr>table_expanding := True\<rparr>) \<and>
   expand page_reserve mod_hash1 (- 4096) 0 (oom_table\<lparr>table_expanding := True\<rparr>)
     = Inr (False, oom_table\<lparr>table_expanding := True\<rparr>)"
proof -
  have n: "\<not> table_expanding oom_table" by (simp add: oom_table_eq)
  from expand_out_of_memory_flag [OF n expand_oom] expand_oom show ?thesis by blast
qed


section \<open>The flush engine\<close>

text \<open>
  The flush thread holds pointers to pages of several buckets and changes the pages
  through them, so here the pages live in a store, by address. A write request has its
  offset, its buffers and its private data; a buffer of such a request is the frame of a
  page (\<^verbatim>\<open>p->get_data()\<close>, \<^verbatim>\<open>PAGE_SIZE\<close> bytes) and is named by that page's address.
\<close>

type_synonym heap = "nat \<Rightarrow> page"

record io_request =
  req_offset :: int
  req_bufs :: "nat list"
  req_priv :: nat

text \<open>Modelled from the spec: \<^verbatim>\<open>io_request::get_num_bufs\<close> and \<^verbatim>\<open>get_size\<close> of the
  missing header; a request covers \<open>[offset, offset + num_bufs * PAGE_SIZE)\<close>.\<close>

definition get_num_bufs :: "io_request \<Rightarrow> nat" where
  "get_num_bufs req = length (req_bufs req)"

definition get_size :: "io_request \<Rightarrow> int" where
  "get_size req = int (get_num_bufs req) * PAGE_SIZE"

text \<open>\<^verbatim>\<open>io_req_extension::add_buf\<close> stores the buffer at index \<^verbatim>\<open>num_bufs\<close>, behind the
  others; \<^verbatim>\<open>add_buf_front\<close> moves the others up and stores it at index 0.\<close>

definition add_buf :: "nat \<Rightarrow> io_request \<Rightarrow> io_request" where
  "add_buf p req = req\<lparr>req_bufs := req_bufs req @ [p]\<rparr>"

definition add_buf_front :: "nat \<Rightarrow> io_request \<Rightarrow> io_request" where
  "add_buf_front p req = req\<lparr>req_bufs := p # req_bufs req\<rparr>"

text \<open>
  \<^verbatim>\<open>merge_pages2reqs\<close>. The \<^verbatim>\<open>std::map\<close> from offsets to pages is an association
  list. \<open>merge_loop\<close> is the \<^verbatim>\<open>for\<close> loop over the vector of requests: \<open>kept\<close> are the
  requests before index \<open>i\<close>, the third argument the requests from \<open>i\<close> on; a failing
  \<^verbatim>\<open>assert\<close> is an error. \<open>merge_pages2reqs\<close> then drops the reference of every page
  left in the map.
\<close>

type_synonym dirty_map = "(int \<times> nat) list"

fun merge_loop ::
  "bool \<Rightarrow> io_request list \<Rightarrow> io_request list \<Rightarrow> dirty_map \<Rightarrow> io_request list \<Rightarrow> heap
     \<Rightarrow> error + (io_request list \<times> dirty_map \<times> io_request list \<times> heap)" where
  "merge_loop forward kept [] dirty_pages complete h = Inr (kept, dirty_pages, complete, h)"
| "merge_loop forward kept (req # rest) dirty_pages complete h =
     (let key = (if forward then req_offset req + get_size req else req_offset req - PAGE_SIZE)
      in case map_of dirty_pages key of
           None \<Rightarrow> merge_loop forward kept rest dirty_pages (complete @ [req]) h
         | Some p \<Rightarrow>
             (let erased = filter (\<lambda>e. fst e \<noteq> key) dirty_pages
              in if old_dirty (h p) then Inl AssertionFailed
                 else if \<not> data_ready (h p) then Inl AssertionFailed
                 else if \<not> io_pending (h p) then
                   (if \<not> forward \<and> offset (h p) \<noteq> req_offset req - PAGE_SIZE
                    then Inl AssertionFailed
                    else merge_loop forward
                           (kept @ [if forward then add_buf p req
                                    else (add_buf p req)\<lparr>req_offset := offset (h p)\<rparr>])
                           rest erased complete (h(p := (h p)\<lparr>io_pending := True\<rparr>)))
                 else merge_loop forward kept rest erased (complete @ [req])
                        (h(p := dec_ref (h p)))))"

definition merge_pages2reqs ::
  "io_request list \<Rightarrow> dirty_map \<Rightarrow> bool \<Rightarrow> io_request list \<Rightarrow> heap
     \<Rightarrow> error + (io_request list \<times> io_request list \<times> heap)" where
  "merge_pages2reqs requests dirty_pages forward complete h =
     (case merge_loop forward [] requests dirty_pages complete h of
        Inl e \<Rightarrow> Inl e
      | Inr (requests', dirty_pages', complete', h') \<Rightarrow>
          Inr (requests', complete', fold (\<lambda>e h. h(snd e := dec_ref (h (snd e)))) dirty_pages' h'))"

text \<open>\<^verbatim>\<open>write_requests\<close>: a request of more than one buffer goes to the transport, here
  the list \<open>issued\<close>; a request of one buffer is dropped.\<close>

fun write_requests :: "io_request list \<Rightarrow> heap \<Rightarrow> io_request list \<Rightarrow> heap \<times> io_request list" where
  "write_requests [] h issued = (h, issued)"
| "write_requests (req # requests) h issued =
     (if get_num_bufs req > 1 then write_requests requests h (issued @ [req])
      else write_requests requests
             (h(req_priv req := dec_ref ((h (req_priv req))\<lparr>io_pending := False\<rparr>))) issued)"

text \<open>One round of the backward search of \<^verbatim>\<open>associative_flush_thread::run\<close> with the
  statements after its loop: the dirty pages of the previous bucket are merged into the
  requests, the requests left over join the complete ones, and all are written.\<close>

definition backward_pass ::
  "io_request list \<Rightarrow> dirty_map \<Rightarrow> heap \<Rightarrow> error + (heap \<times> io_request list)" where
  "backward_pass forward_complete dirty_pages h =
     (case merge_pages2reqs forward_complete dirty_pages False [] h of
        Inl e \<Rightarrow> Inl e
      | Inr (requests', complete, h') \<Rightarrow> Inr (write_requests (complete @ requests') h' []))"

text \<open>The offsets of the pages whose frames a request carries, in the order of its
  buffers, and the page offsets the request covers.\<close>

definition buffer_offsets :: "heap \<Rightarrow> io_request \<Rightarrow> int list" where
  "buffer_offsets h req = map (\<lambda>p. offset (h p)) (req_bufs req)"

definition covered_offsets :: "io_request \<Rightarrow> int list" where
  "covered_offsets req = map (\<lambda>k. req_offset req + int k * PAGE_SIZE) [0..<get_num_bufs req]"

text \<open>Two dirty pages at 4096 and 8192, each with the reference \<^verbatim>\<open>get_dirty_pages\<close>
  took; the flush thread has made a request for the second.\<close>

definition dirty_page :: "int \<Rightarrow> bool \<Rightarrow> page" where
  "dirty_page off pending = \<lparr>offset = off, data = [], data_ready = True, dirty = True,
     old_dirty = False, io_pending = pending, hits = 1, refcnt = 1\<rparr>"

definition flush_heap :: heap where
  "flush_heap = (\<lambda>p. fresh_page (- 4096))(1 := dirty_page 4096 False, 2 := dirty_page 8192 True)"

definition flush_request :: io_request where
  "flush_request = \<lparr>req_offset = 8192, req_bufs = [2], req_priv = 2\<rparr>"

text \<open>
  C5 does not hold of the code. The backward merge puts the frame of the page at 4096
  behind the frame of the page at 8192 and moves the request's offset to 4096: the
  request that reaches the transport covers 4096 and 8192 and carries the frames of the
  pages at 8192 and 4096, in this order.
\<close>

theorem backward_merge_order:
  "map (\<lambda>r. (req_offset r, covered_offsets r, buffer_offsets (fst (projr (backward_pass [flush_request] [(4096, 1)] flush_heap))) r))
      (snd (projr (backward_pass [flush_request] [(4096, 1)] flush_heap)))
   = [(4096, [4096, 8192], [8192, 4096])]"
  by (simp add: backward_pass_def merge_pages2reqs_def flush_request_def flush_heap_def
      dirty_page_def PAGE_SIZE_def get_size_def get_num_bufs_def add_buf_def
      buffer_offsets_def covered_offsets_def Let_def upt_rec)


section \<open>Preloading (\<^verbatim>\<open>global_cached_io::preload\<close>)\<close>

unbundle bit_operations_syntax

text \<open>The macro \<^verbatim>\<open>ROUND_PAGE\<close> of \<^verbatim>\<open>common_c.h\<close>:
  \<^verbatim>\<open>((long) off) & (~((long) PAGE_SIZE - 1))\<close>. Offsets are integers; the bitwise
  operations on them are those of two's complement.\<close>

definition ROUND_PAGE :: "int \<Rightarrow> int" where
  "ROUND_PAGE off = off AND NOT (PAGE_SIZE - 1)"

text \<open>
  What \<^verbatim>\<open>preload\<close> reads and writes of a \<^verbatim>\<open>global_cached_io\<close>: the global page
  cache, the frames of its pages (a store, by address), \<^verbatim>\<open>cache_size\<close>, and the
  requests handed to the underlying I/O so far.
\<close>

record 'c global_cached_io =
  global_cache :: 'c
  pages :: heap
  cache_size :: int
  underlying :: "io_request list"

text \<open>Modelled from the spec: \<^verbatim>\<open>page_cache::search(off, old_off)\<close> is virtual and
  declared in the missing header, so it is a parameter. It gets the cache, the frames,
  the offset and the caller's \<^verbatim>\<open>old_off\<close>, and gives the address of the page with the
  new \<^verbatim>\<open>old_off\<close>, cache and frames; \<open>None\<close> when it does not return.\<close>

type_synonym 'c page_cache_search =
  "'c \<Rightarrow> heap \<Rightarrow> int \<Rightarrow> int \<Rightarrow> (nat \<times> int \<times> 'c \<times> heap) option"

text \<open>One turn of the loop of \<^verbatim>\<open>preload\<close>: the lookup with \<^verbatim>\<open>old_off = -1\<close>, the
  two flags when the page is not ready, and \<^verbatim>\<open>dec_ref\<close>. Nothing is sent to the
  underlying I/O.\<close>

definition preload_page ::
  "'c page_cache_search \<Rightarrow> int \<Rightarrow> 'c global_cached_io \<Rightarrow> 'c global_cached_io option" where
  "preload_page search off io =
     (case search (global_cache io) (pages io) (ROUND_PAGE off) (- 1) of
        None \<Rightarrow> None
      | Some (p, old_off, c, h) \<Rightarrow>
          (let h1 = (if \<not> data_ready (h p)
                     then h(p := (h p)\<lparr>io_pending := False, data_ready := True\<rparr>) else h)
           in Some (io\<lparr>global_cache := c, pages := h1(p := dec_ref (h1 p))\<rparr>)))"

function preload_loop ::
  "'c page_cache_search \<Rightarrow> int \<Rightarrow> int \<Rightarrow> 'c global_cached_io \<Rightarrow> 'c global_cached_io option" where
  "preload_loop search stop off io =
     (if off < stop then
        (case preload_page search off io of
           None \<Rightarrow> None
         | Some io' \<Rightarrow> preload_loop search stop (off + PAGE_SIZE) io')
      else Some io)"
  by pat_completeness auto

termination preload_loop
  by (relation "measure (\<lambda>(search, stop, off, io). nat (stop - off))")
     (simp_all add: PAGE_SIZE_def)

declare preload_loop.simps [simp del]

text \<open>\<^verbatim>\<open>preload(off_t start, long size)\<close>: \<^verbatim>\<open>exit(1)\<close> when the size exceeds
  \<^verbatim>\<open>cache_size\<close>, then the assertion on \<open>start\<close>, then the loop.\<close>

definition preload ::
  "'c page_cache_search \<Rightarrow> int \<Rightarrow> int \<Rightarrow> 'c global_cached_io
     \<Rightarrow> error + 'c global_cached_io option" where
  "preload search start sz io =
     (if sz > cache_size io then Inl (Exit 1)
      else if \<not> ROUND_PAGE start = start then Inl AssertionFailed
      else Inr (preload_loop search (start + sz) start io))"

text \<open>The offsets \<open>start, start + PAGE_SIZE, ...\<close> below \<open>start + sz\<close>.\<close>

definition page_offsets :: "int \<Rightarrow> int \<Rightarrow> int list" where
  "page_offsets start sz =
     map (\<lambda>k. start + int k * PAGE_SIZE) [0..<nat ((sz + PAGE_SIZE - 1) div PAGE_SIZE)]"

lemma and_not_mask_int: "(a::int) AND NOT (mask n) = a - a mod 2 ^ n"
proof -
  have "a AND NOT (mask n) = push_bit n (drop_bit n a)"
    by (auto simp: bit_eq_iff bit_simps)
  with bits_ident [of n a] show ?thesis
    by (simp add: take_bit_eq_mod)
qed

lemma ROUND_PAGE_mod: "ROUND_PAGE off = off - off mod PAGE_SIZE"
proof -
  have "PAGE_SIZE - 1 = mask 12" by (simp add: PAGE_SIZE_def mask_eq_exp_minus_1)
  moreover have "(2::int) ^ 12 = PAGE_SIZE" by (simp add: PAGE_SIZE_def)
  ultimately show ?thesis
    unfolding ROUND_PAGE_def by (simp only: and_not_mask_int)
qed

lemma ROUND_PAGE_aligned: "ROUND_PAGE off = off \<longleftrightarrow> off mod PAGE_SIZE = 0"
  by (simp add: ROUND_PAGE_mod)

lemma fold_bind_None:
  "fold (\<lambda>x r. Option.bind r (f x)) xs None = None"
  by (induction xs) simp_all

lemma preload_loop_fold:
  assumes "e - off \<le> int n * PAGE_SIZE" and "n > 0 \<Longrightarrow> int (n - 1) * PAGE_SIZE < e - off"
  shows "preload_loop search e off io =
     fold (\<lambda>x r. Option.bind r (preload_page search x))
       (map (\<lambda>k. off + int k * PAGE_SIZE) [0..<n]) (Some io)"
  using assms
proof (induction n arbitrary: off io)
  case 0
  then have "\<not> off < e" by simp
  then show ?case by (simp add: preload_loop.simps [of search e off io])
next
  case (Suc n)
  have l: "map (\<lambda>k. off + int k * PAGE_SIZE) [0..<Suc n] =
           off # map (\<lambda>k. (off + PAGE_SIZE) + int k * PAGE_SIZE) [0..<n]"
    by (simp add: upt_conv_Cons map_Suc_upt [symmetric] algebra_simps del: upt_Suc)
  from Suc.prems(2) have "int n * PAGE_SIZE < e - off" by simp
  moreover have "0 \<le> int n * PAGE_SIZE" by (simp add: PAGE_SIZE_def)
  ultimately have lt: "off < e" by linarith
  show ?case
    unfolding l
  proof (cases "preload_page search off io")
    case None
    then show "preload_loop search e off io =
      fold (\<lambda>x r. Option.bind r (preload_page search x))
        (off # map (\<lambda>k. (off + PAGE_SIZE) + int k * PAGE_SIZE) [0..<n]) (Some io)"
      using lt by (simp add: preload_loop.simps [of search e off io] fold_bind_None)
  next
    case (Some io')
    have "preload_loop search e (off + PAGE_SIZE) io' =
            fold (\<lambda>x r. Option.bind r (preload_page search x))
              (map (\<lambda>k. (off + PAGE_SIZE) + int k * PAGE_SIZE) [0..<n]) (Some io')"
    proof (rule Suc.IH)
      show "e - (off + PAGE_SIZE) \<le> int n * PAGE_SIZE"
        using Suc.prems(1) by (simp add: algebra_simps)
      show "int (n - 1) * PAGE_SIZE < e - (off + PAGE_SIZE)" if "0 < n"
        using Suc.prems(2) that by (simp add: algebra_simps of_nat_diff)
    qed
    then show "preload_loop search e off io =
      fold (\<lambda>x r. Option.bind r (preload_page search x))
        (off # map (\<lambda>k. (off + PAGE_SIZE) + int k * PAGE_SIZE) [0..<n]) (Some io)"
      using lt Some by (simp add: preload_loop.simps [of search e off io])
  qed
qed

lemma page_div:
  fixes sz :: int
  defines "d \<equiv> (sz + PAGE_SIZE - 1) div PAGE_SIZE"
  shows "PAGE_SIZE * d < sz + PAGE_SIZE" and "sz \<le> PAGE_SIZE * d"
proof -
  have m: "sz + 4095 = 4096 * ((sz + 4095) div 4096) + (sz + 4095) mod 4096"
    by simp
  have r: "0 \<le> (sz + 4095) mod 4096" "(sz + 4095) mod 4096 < 4096"
    by simp_all
  have e: "d = (sz + 4095) div 4096"
    by (simp add: d_def PAGE_SIZE_def)
  from m r show "PAGE_SIZE * d < sz + PAGE_SIZE"
    unfolding e PAGE_SIZE_def by linarith
  from m r show "sz \<le> PAGE_SIZE * d"
    unfolding e PAGE_SIZE_def by linarith
qed

lemma page_count:
  "sz \<le> int (nat ((sz + PAGE_SIZE - 1) div PAGE_SIZE)) * PAGE_SIZE"
  "0 < nat ((sz + PAGE_SIZE - 1) div PAGE_SIZE) \<Longrightarrow>
     int (nat ((sz + PAGE_SIZE - 1) div PAGE_SIZE) - 1) * PAGE_SIZE < sz"
proof -
  define d where "d = (sz + PAGE_SIZE - 1) div PAGE_SIZE"
  have b: "PAGE_SIZE * d < sz + PAGE_SIZE" "sz \<le> PAGE_SIZE * d"
    unfolding d_def by (rule page_div)+
  show "sz \<le> int (nat ((sz + PAGE_SIZE - 1) div PAGE_SIZE)) * PAGE_SIZE"
  proof (cases "0 \<le> d")
    case True
    then show ?thesis using b(2) by (simp add: d_def [symmetric] mult.commute)
  next
    case False
    then have "PAGE_SIZE * d \<le> 0" by (simp add: PAGE_SIZE_def)
    with b(2) False show ?thesis by (simp add: d_def [symmetric])
  qed
  show "int (nat ((sz + PAGE_SIZE - 1) div PAGE_SIZE) - 1) * PAGE_SIZE < sz"
    if "0 < nat ((sz + PAGE_SIZE - 1) div PAGE_SIZE)"
  proof -
    from that have p: "0 < d" by (simp add: d_def)
    then have "int (nat d - 1) = d - 1" by (simp add: of_nat_diff)
    then have "int (nat d - 1) * PAGE_SIZE = PAGE_SIZE * d - PAGE_SIZE"
      by (simp add: algebra_simps)
    with b(1) show ?thesis by (simp add: d_def [symmetric])
  qed
qed

lemma preload_loop_offsets:
  "preload_loop search (start + sz) start io =
     fold (\<lambda>x r. Option.bind r (preload_page search x)) (page_offsets start sz) (Some io)"
  unfolding page_offsets_def
  by (rule preload_loop_fold) (use page_count [of sz] in simp_all)

lemma page_offsets_iff:
  assumes "ROUND_PAGE start = start"
  shows "off \<in> set (page_offsets start sz) \<longleftrightarrow>
           ROUND_PAGE off = off \<and> start \<le> off \<and> off < start + sz"
proof -
  define d where "d = (sz + PAGE_SIZE - 1) div PAGE_SIZE"
  have b: "PAGE_SIZE * d < sz + PAGE_SIZE" "sz \<le> PAGE_SIZE * d"
    unfolding d_def by (rule page_div)+
  from assms have a: "PAGE_SIZE dvd start"
    by (simp add: ROUND_PAGE_aligned mod_eq_0_iff_dvd)
  have "off \<in> set (map (\<lambda>k. start + int k * PAGE_SIZE) [0..<nat d]) \<longleftrightarrow>
          PAGE_SIZE dvd off \<and> start \<le> off \<and> off < start + sz"
  proof
    assume "off \<in> set (map (\<lambda>k. start + int k * PAGE_SIZE) [0..<nat d])"
    then have "\<exists>k. off = start + int k * PAGE_SIZE \<and> k < nat d"
      by (simp add: image_iff Bex_def conj_commute)
    then obtain k where k: "off = start + int k * PAGE_SIZE" "k < nat d"
      by blast
    from k(2) have "int k + 1 \<le> d" by simp
    then have "PAGE_SIZE * (int k + 1) \<le> PAGE_SIZE * d"
      by (simp add: PAGE_SIZE_def)
    with b(1) have lt: "int k * PAGE_SIZE < sz" by (simp add: algebra_simps)
    have "0 \<le> int k * PAGE_SIZE" by (simp add: PAGE_SIZE_def)
    moreover have "PAGE_SIZE dvd off" unfolding k(1) using a by simp
    ultimately show "PAGE_SIZE dvd off \<and> start \<le> off \<and> off < start + sz"
      using lt k(1) by simp
  next
    assume c: "PAGE_SIZE dvd off \<and> start \<le> off \<and> off < start + sz"
    with a have "PAGE_SIZE dvd off - start" by (simp add: dvd_diff)
    then obtain q where q: "off - start = PAGE_SIZE * q" by (auto simp: dvd_def)
    with c have "0 \<le> PAGE_SIZE * q" by simp
    then have q0: "0 \<le> q" by (simp add: PAGE_SIZE_def)
    from q c have "PAGE_SIZE * q < sz" by simp
    with b(2) have "PAGE_SIZE * q < PAGE_SIZE * d" by simp
    then have "q < d" by (simp add: PAGE_SIZE_def)
    then have "nat q < nat d" using q0 by simp
    moreover have "off = start + int (nat q) * PAGE_SIZE"
      using q q0 by (simp add: algebra_simps)
    ultimately show "off \<in> set (map (\<lambda>k. start + int k * PAGE_SIZE) [0..<nat d])"
      by (auto intro!: image_eqI [of _ _ "nat q"])
  qed
  then show ?thesis
    by (simp add: page_offsets_def d_def ROUND_PAGE_aligned mod_eq_0_iff_dvd)
qed


subsection \<open>An example: a cache of one bucket\<close>

text \<open>A cache that is a single bucket under CLOCK, not expandable; the frames of the
  bucket are the store.\<close>

definition bucket_search :: "hash_cell page_cache_search" where
  "bucket_search c h off old_off =
     (case search2 (\<lambda>i c. c) fixed_env (- 4096) off old_off (c\<lparr>buf := h\<rparr>) of
        Returned i old_off' c' \<Rightarrow> Some (i, old_off', c', buf c')
      | _ \<Rightarrow> None)"

text \<open>The full bucket, with the byte 7 in the frame of the page at offset 0.\<close>

definition stale_frames :: heap where
  "stale_frames = (buf full_cell)(0 := (cached_page 0 1)\<lparr>data := [7]\<rparr>)"

definition stale_io :: "hash_cell global_cached_io" where
  "stale_io = \<lparr>global_cache = full_cell, pages = stale_frames, cache_size = 65536,
     underlying = []\<rparr>"

lemma preload_page_Some:
  assumes "search (global_cache io) (pages io) (ROUND_PAGE off) (- 1) = Some (p, old_off, c, h)"
  shows "\<exists>io'. preload_page search off io = Some io' \<and>
           data_ready (pages io' p) \<and> \<not> (\<not> data_ready (h p) \<and> io_pending (pages io' p)) \<and>
           data (pages io' p) = data (h p) \<and> offset (pages io' p) = offset (h p) \<and>
           refcnt (pages io' p) = refcnt (h p) - 1 \<and>
           (\<forall>q. q \<noteq> p \<longrightarrow> pages io' q = h q) \<and>
           global_cache io' = c \<and> underlying io' = underlying io \<and>
           cache_size io' = cache_size io"
  using assms by (simp add: preload_page_def Let_def dec_ref_def)

lemma preload_page_underlying:
  "preload_page search off io = Some io' \<Longrightarrow>
     underlying io' = underlying io \<and> cache_size io' = cache_size io"
  by (auto simp: preload_page_def Let_def split: option.splits)

lemma preload_loop_underlying:
  "preload_loop search stop off io = Some io' \<Longrightarrow>
     underlying io' = underlying io \<and> cache_size io' = cache_size io"
proof (induction search stop off io rule: preload_loop.induct)
  case (1 search stop off io)
  show ?case
  proof (cases "off < stop")
    case False
    with 1(2) show ?thesis by (simp add: preload_loop.simps [of search stop off io])
  next
    case True
    with 1(2) obtain io1 where s: "preload_page search off io = Some io1"
      and l: "preload_loop search stop (off + PAGE_SIZE) io1 = Some io'"
      by (auto simp: preload_loop.simps [of search stop off io] split: option.splits)
    from 1(1) [OF True s l] preload_page_underlying [OF s] show ?thesis by simp
  qed
qed

lemma find_stale_miss: "find_offset (full_cell\<lparr>buf := stale_frames\<rparr>) 65536 = None"
  by (simp add: find_offset_def upt_CELL_SIZE full_cell_def cached_page_def stale_frames_def)

lemma bucket_search_stale:
  "map_option (\<lambda>(p, old_off, c, h). (p, old_off, data_ready (h p), data (h p), offset (h p),
       refcnt (h p)))
     (bucket_search full_cell stale_frames 65536 (- 1)) = Some (0, 0, False, [7], 65536, 1)"
  apply (simp add: bucket_search_def search2_def find_stale_miss)
  apply (simp add: search_miss_def get_empty_page_def fixed_env_def search_tail_def
      inc_ref_def hit_def evict_page_def clock_loop.simps clock_turn_def full_cell_def
      cached_page_def stale_frames_def CELL_SIZE_def Let_def reset_hits_def set_page_def)
  done

text \<open>
  C10. \<open>preload search start sz io\<close> ends the process with \<^verbatim>\<open>exit(1)\<close> when \<open>sz\<close>
  exceeds \<open>cache_size\<close>, and otherwise through the failed assertion when \<open>start\<close> is
  not page-aligned. Otherwise it is the composition of \<open>preload_page\<close> over the
  page offsets \<open>start, start + PAGE_SIZE, ...\<close>, which are exactly the aligned offsets
  of \<open>[start, start + sz)\<close>. In every state \<open>s\<close>, whenever the lookup of a page returns,
  \<open>preload_page\<close> returns as well: the page is data-ready afterwards, its bytes and its offset are
  those the lookup left in the frame, its reference count is one less than after the
  lookup, no other frame changes, and the queue of the underlying I/O is as before.
  The underlying I/O and \<open>cache_size\<close> are the same after \<open>preload\<close> as before.
\<close>

theorem preload_pages:
  "preload search start sz io =
     (if cache_size io < sz then Inl (Exit 1)
      else if ROUND_PAGE start \<noteq> start then Inl AssertionFailed
      else Inr (fold (\<lambda>off r. Option.bind r (preload_page search off))
                  (page_offsets start sz) (Some io))) \<and>
   (ROUND_PAGE start = start \<longrightarrow>
      (\<forall>off. off \<in> set (page_offsets start sz) \<longleftrightarrow>
         ROUND_PAGE off = off \<and> start \<le> off \<and> off < start + sz)) \<and>
   (\<forall>s off p old_off c h.
      search (global_cache s) (pages s) (ROUND_PAGE off) (- 1) = Some (p, old_off, c, h) \<longrightarrow>
      (\<exists>s'. preload_page search off s = Some s' \<and>
         data_ready (pages s' p) \<and> data (pages s' p) = data (h p) \<and>
         offset (pages s' p) = offset (h p) \<and> refcnt (pages s' p) = refcnt (h p) - 1 \<and>
         (\<forall>q. q \<noteq> p \<longrightarrow> pages s' q = h q) \<and>
         global_cache s' = c \<and> underlying s' = underlying s)) \<and>
   (\<forall>io'. preload search start sz io = Inr (Some io') \<longrightarrow>
      underlying io' = underlying io \<and> cache_size io' = cache_size io)"
proof -
  have a: "preload search start sz io =
     (if cache_size io < sz then Inl (Exit 1)
      else if ROUND_PAGE start \<noteq> start then Inl AssertionFailed
      else Inr (fold (\<lambda>off r. Option.bind r (preload_page search off))
                  (page_offsets start sz) (Some io)))"
    by (simp add: preload_def preload_loop_offsets)
  have b: "off \<in> set (page_offsets start sz) \<longleftrightarrow>
         ROUND_PAGE off = off \<and> start \<le> off \<and> off < start + sz"
    if "ROUND_PAGE start = start" for off
    using that by (rule page_offsets_iff)
  have c: "\<exists>s'. preload_page search off s = Some s' \<and>
         data_ready (pages s' p) \<and> data (pages s' p) = data (h p) \<and>
         offset (pages s' p) = offset (h p) \<and> refcnt (pages s' p) = refcnt (h p) - 1 \<and>
         (\<forall>q. q \<noteq> p \<longrightarrow> pages s' q = h q) \<and>
         global_cache s' = c \<and> underlying s' = underlying s"
    if "search (global_cache s) (pages s) (ROUND_PAGE off) (- 1) = Some (p, old_off, c, h)"
    for s :: "'a global_cached_io" and off p old_off c h
    using preload_page_Some [of search s off p old_off c h] that by blast
  have d: "underlying io' = underlying io \<and> cache_size io' = cache_size io"
    if "preload search start sz io = Inr (Some io')" for io'
  proof -
    from that have "preload_loop search (start + sz) start io = Some io'"
      by (simp add: preload_def split: if_splits)
    then show ?thesis by (rule preload_loop_underlying)
  qed
  from a b c d show ?thesis by blast
qed

theorem preload_pages_witness:
  "map_option (\<lambda>io'. (data_ready (pages io' 0), data (pages io' 0), offset (pages io' 0),
       refcnt (pages io' 0), underlying io'))
     (projr (preload bucket_search 65536 4096 stale_io)) =
   Some (True, [7], 65536, 0, [])"
proof -
  have r: "ROUND_PAGE 65536 = 65536"
    by (simp add: ROUND_PAGE_mod PAGE_SIZE_def)
  have o: "page_offsets 65536 4096 = [65536]"
    by (simp add: page_offsets_def PAGE_SIZE_def)
  obtain p old_off c h where
    s: "bucket_search full_cell stale_frames 65536 (- 1) = Some (p, old_off, c, h)"
    and v: "p = 0" "data (h p) = [7]" "offset (h p) = 65536" "refcnt (h p) = 1"
    using bucket_search_stale by (cases "bucket_search full_cell stale_frames 65536 (- 1)") auto
  note t = preload_pages [of bucket_search 65536 4096 stale_io]
  from s r have
    "bucket_search (global_cache stale_io) (pages stale_io) (ROUND_PAGE 65536) (- 1) =
       Some (p, old_off, c, h)"
    by (simp add: stale_io_def)
  with t obtain io' where
    i: "preload_page bucket_search 65536 stale_io = Some io'"
      "data_ready (pages io' p)" "data (pages io' p) = data (h p)"
      "offset (pages io' p) = offset (h p)" "refcnt (pages io' p) = refcnt (h p) - 1"
      "underlying io' = underlying stale_io"
    by blast
  from t have "preload bucket_search 65536 4096 stale_io =
      Inr (Option.bind (Some stale_io) (preload_page bucket_search 65536))"
    by (simp add: r o stale_io_def)
  with i v show ?thesis by (simp add: stale_io_def)
qed

end
